theory Spec2Isabelle
  imports Complex_Main
begin

section \<open>The Kaleidoscope front end: lexer and parser of main.cpp\<close>

text \<open>
  The program keeps its whole state in static variables. The embedding passes them
  around in one record: the unread part of standard input, the lexer's lookahead
  character \<open>LastChar\<close>, the two payload variables \<open>IdentifierStr\<close> and \<open>NumVal\<close>, the
  parser's current token \<open>CurTok\<close>, the precedence table \<open>BinopPrecedence\<close> (a
  \<open>std::map<char, int>\<close>, which \<open>operator[]\<close> may extend) and the lines written to
  standard error.
\<close>

subsection \<open>Characters and tokens\<close>

text \<open>
  \<open>getchar\<close> returns an \<open>int\<close>: the next byte as a value in 0..255, or \<open>EOF\<close>.
  Tokens are \<open>int\<close>s too: a byte value for an unknown character, or one of the
  negative members of \<open>enum Token\<close>.
\<close>

abbreviation EOF :: int where "EOF \<equiv> - 1"

abbreviation tok_eof :: int where "tok_eof \<equiv> - 1"
abbreviation tok_def :: int where "tok_def \<equiv> - 2"
abbreviation tok_extern :: int where "tok_extern \<equiv> - 3"
abbreviation tok_identifier :: int where "tok_identifier \<equiv> - 4"
abbreviation tok_number :: int where "tok_number \<equiv> - 5"

text \<open>The character classes of \<open><cctype>\<close> in the "C" locale, on \<open>int\<close> arguments.\<close>

definition isspace :: "int \<Rightarrow> bool" where
  "isspace c \<longleftrightarrow> c = 32 \<or> (9 \<le> c \<and> c \<le> 13)"

definition isalpha :: "int \<Rightarrow> bool" where
  "isalpha c \<longleftrightarrow> (65 \<le> c \<and> c \<le> 90) \<or> (97 \<le> c \<and> c \<le> 122)"

definition isdigit :: "int \<Rightarrow> bool" where
  "isdigit c \<longleftrightarrow> 48 \<le> c \<and> c \<le> 57"

definition isalnum :: "int \<Rightarrow> bool" where
  "isalnum c \<longleftrightarrow> isalpha c \<or> isdigit c"

definition isascii :: "int \<Rightarrow> bool" where
  "isascii c \<longleftrightarrow> 0 \<le> c \<and> c \<le> 127"

subsection \<open>The numeric conversion\<close>

text \<open>
  \<open>std::stod\<close> belongs to the C++ library. The lexer only hands it strings of digits
  and dots, on which it converts the longest prefix of the form
  \<open>digits [. digits]\<close> holding at least one digit. It throws \<open>std::invalid_argument\<close>
  when there is none (\<open>"."\<close>, \<open>"..5"\<close>), and \<open>std::out_of_range\<close> when the value is
  beyond the range of \<open>double\<close>: from \<open>2^1024 - 2^970\<close> on, the least value that rounds
  to no finite binary64 number. Nothing in the program catches either, so the program
  ends there. For a value in range the model keeps the exact decimal value of the
  prefix, a rational, which stands for the \<open>double\<close> nearest to it that the program
  holds; the rounding itself is not modelled. Whether a nonzero literal below the
  least normal \<open>double\<close> is a range error is left to the C library (\<open>strtod\<close> may or may
  not set \<open>ERANGE\<close> on underflow); the model takes its value.
\<close>

definition decimal :: "string \<Rightarrow> nat" where
  "decimal ds = foldl (\<lambda>a c. 10 * a + (of_char c - 48)) 0 ds"

definition out_of_range :: "rat \<Rightarrow> bool" where
  "out_of_range v \<longleftrightarrow> 2 ^ 1024 - 2 ^ 970 \<le> v"

definition stod :: "string \<Rightarrow> rat option" where
  "stod str =
     (case (takeWhile (\<lambda>c. isdigit (of_char c)) str,
            dropWhile (\<lambda>c. isdigit (of_char c)) str) of
        (ip, rest) \<Rightarrow>
          (case (case rest of
                   [] \<Rightarrow> []
                 | c # r \<Rightarrow> if c = CHR ''.'' then takeWhile (\<lambda>c. isdigit (of_char c)) r
                            else []) of
             fp \<Rightarrow>
               if ip = [] \<and> fp = [] then None
               else (case of_nat (decimal ip) + of_nat (decimal fp) / 10 ^ length fp of
                       v \<Rightarrow> if out_of_range v then None else Some v)))"

text \<open>Some conversions; the literal \<open>1\<close> followed by 309 zeros is out of range.\<close>

lemma stod_examples:
  "stod ''1.5'' = Some (3 / 2)"
  "stod ''12.5.3'' = Some (25 / 2)"
  "stod ''7.'' = Some 7"
  "stod ''.5'' = Some (1 / 2)"
  "stod ''.'' = None"
  "stod ''..5'' = None"
  by (simp_all add: stod_def out_of_range_def decimal_def isdigit_def)

lemma decimal_zeros:
  "foldl (\<lambda>a c. 10 * a + (of_char c - 48)) (a :: nat) (replicate n CHR ''0'') = a * 10 ^ n"
  by (induction n arbitrary: a) simp_all

lemma stod_out_of_range:
  "stod (CHR ''1'' # replicate 309 CHR ''0'') = None"
  "stod (CHR ''1'' # replicate 308 CHR ''0'') = Some (10 ^ 308)"
  by (simp_all add: stod_def out_of_range_def decimal_def isdigit_def decimal_zeros)

subsection \<open>The program state\<close>

record state =
  stdin :: string
  LastChar :: int
  IdentifierStr :: string
  NumVal :: rat
  CurTok :: int
  BinopPrecedence :: "char \<rightharpoonup> int"
  stderr :: "string list"

text \<open>
  The state at the start of \<open>main\<close>, for a given content of standard input:
  \<open>LastChar\<close> is initialised to a space, the table holds the five operators, the
  other statics are zero-initialised.
\<close>

definition initial_state :: "string \<Rightarrow> state" where
  "initial_state inp =
     \<lparr>stdin = inp, LastChar = 32, IdentifierStr = [], NumVal = 0, CurTok = 0,
      BinopPrecedence =
        [CHR ''<'' \<mapsto> 10, CHR ''+'' \<mapsto> 20, CHR ''-'' \<mapsto> 20, CHR ''*'' \<mapsto> 40, CHR ''/'' \<mapsto> 40],
      stderr = []\<rparr>"

subsection \<open>The lexer\<close>

definition getchar :: "state \<Rightarrow> int \<times> state" where
  "getchar s =
     (case stdin s of
        [] \<Rightarrow> (EOF, s)
      | c # cs \<Rightarrow> (of_char c, s\<lparr>stdin := cs\<rparr>))"

text \<open>\<open>while (isspace(LastChar)) LastChar = getchar();\<close>\<close>

function gettok_skip_space :: "state \<Rightarrow> state" where
  "gettok_skip_space s =
     (if isspace (LastChar s)
      then (case getchar s of (c, s') \<Rightarrow> gettok_skip_space (s'\<lparr>LastChar := c\<rparr>))
      else s)"
  by pat_completeness auto
termination
  by (relation "measure (\<lambda>s. length (stdin s) + (if isspace (LastChar s) then 1 else 0))")
     (auto simp: getchar_def isspace_def split: list.splits)

text \<open>\<open>while (isalnum((LastChar = getchar()))) IdentifierStr += LastChar;\<close>\<close>

function gettok_identifier :: "state \<Rightarrow> state" where
  "gettok_identifier s =
     (case getchar s of
        (c, s') \<Rightarrow>
          if isalnum c
          then gettok_identifier
                 (s'\<lparr>LastChar := c, IdentifierStr := IdentifierStr s' @ [char_of c]\<rparr>)
          else s'\<lparr>LastChar := c\<rparr>)"
  by pat_completeness auto
termination
  by (relation "measure (\<lambda>s. length (stdin s))")
     (auto simp: getchar_def isalnum_def isalpha_def isdigit_def split: list.splits)

text \<open>
  \<open>do { NumStr += LastChar; LastChar = getchar(); }
    while (isdigit(LastChar) || LastChar == '.');\<close>
\<close>

function gettok_number :: "string \<Rightarrow> state \<Rightarrow> string \<times> state" where
  "gettok_number NumStr s =
     (case getchar s of
        (c, s') \<Rightarrow>
          if isdigit c \<or> c = 46
          then gettok_number (NumStr @ [char_of (LastChar s)]) (s'\<lparr>LastChar := c\<rparr>)
          else (NumStr @ [char_of (LastChar s)], s'\<lparr>LastChar := c\<rparr>))"
  by pat_completeness auto
termination
  by (relation "measure (\<lambda>(NumStr, s). length (stdin s))")
     (auto simp: getchar_def isdigit_def split: list.splits)

text \<open>
  \<open>do { LastChar = getchar(); }
    while (LastChar != EOF && LastChar != '\n' && LastChar != '\r');\<close>
\<close>

function gettok_comment :: "state \<Rightarrow> state" where
  "gettok_comment s =
     (case getchar s of
        (c, s') \<Rightarrow>
          if c \<noteq> EOF \<and> c \<noteq> 10 \<and> c \<noteq> 13
          then gettok_comment (s'\<lparr>LastChar := c\<rparr>)
          else s'\<lparr>LastChar := c\<rparr>)"
  by pat_completeness auto
termination
  by (relation "measure (\<lambda>s. length (stdin s))")
     (auto simp: getchar_def split: list.splits)

text \<open>
  The measure of the unread input: the characters left on standard input, and one more
  while the lookahead holds a character.
\<close>

declare gettok_skip_space.simps [simp del] gettok_identifier.simps [simp del]
  gettok_number.simps [simp del] gettok_comment.simps [simp del]

definition unread :: "state \<Rightarrow> nat" where
  "unread s = length (stdin s) + (if LastChar s = EOF then 0 else 1)"

lemma gettok_skip_space_stdin: "length (stdin (gettok_skip_space s)) \<le> length (stdin s)"
proof (induction s rule: gettok_skip_space.induct)
  case (1 s)
  show ?case
  proof (cases "isspace (LastChar s)")
    case True
    obtain c s' where g: "getchar s = (c, s')" by (cases "getchar s")
    from g have "length (stdin s') \<le> length (stdin s)"
      by (auto simp: getchar_def split: list.splits)
    moreover from "1.IH" [OF True g [symmetric]]
    have "length (stdin (gettok_skip_space (s'\<lparr>LastChar := c\<rparr>))) \<le> length (stdin s')"
      by simp
    ultimately show ?thesis using True g by (simp add: gettok_skip_space.simps [of s])
  next
    case False
    then show ?thesis by (simp add: gettok_skip_space.simps [of s])
  qed
qed

lemma gettok_comment_stdin:
  "LastChar (gettok_comment s) \<noteq> EOF \<Longrightarrow>
   length (stdin (gettok_comment s)) < length (stdin s)"
proof (induction s rule: gettok_comment.induct)
  case (1 s)
  obtain c s' where g: "getchar s = (c, s')" by (cases "getchar s")
  show ?case
  proof (cases "c \<noteq> EOF \<and> c \<noteq> 10 \<and> c \<noteq> 13")
    case True
    with g have eq: "gettok_comment s = gettok_comment (s'\<lparr>LastChar := c\<rparr>)"
      by (simp add: gettok_comment.simps [of s])
    from g True have "length (stdin s') < length (stdin s)"
      by (auto simp: getchar_def split: list.splits)
    moreover from "1.IH" [OF g [symmetric] True] "1.prems" eq
    have "length (stdin (gettok_comment (s'\<lparr>LastChar := c\<rparr>))) < length (stdin s')"
      by simp
    ultimately show ?thesis using eq by simp
  next
    case False
    with g have eq: "gettok_comment s = s'\<lparr>LastChar := c\<rparr>"
      by (auto simp: gettok_comment.simps [of s])
    with "1.prems" have "c \<noteq> EOF" by simp
    with g have "length (stdin s') < length (stdin s)"
      by (auto simp: getchar_def split: list.splits)
    then show ?thesis using eq by simp
  qed
qed

text \<open>
  \<open>gettok\<close>: the next token, and the state it leaves. The result is \<open>None\<close> when
  \<open>std::stod\<close> throws, which ends the program. In the comment branch the source falls
  through to the test for \<open>EOF\<close> when the comment ran to the end of input, and that
  test then succeeds.
\<close>

function gettok :: "state \<Rightarrow> (int \<times> state) option" where
  "gettok s0 =
     (case gettok_skip_space s0 of
        s \<Rightarrow>
          if isalpha (LastChar s) then
            (case gettok_identifier (s\<lparr>IdentifierStr := [char_of (LastChar s)]\<rparr>) of
               s' \<Rightarrow>
                 if IdentifierStr s' = ''def'' then Some (tok_def, s')
                 else if IdentifierStr s' = ''extern'' then Some (tok_extern, s')
                 else Some (tok_identifier, s'))
          else if isdigit (LastChar s) \<or> LastChar s = 46 then
            (case gettok_number [] s of
               (NumStr, s') \<Rightarrow>
                 (case stod NumStr of
                    None \<Rightarrow> None
                  | Some v \<Rightarrow> Some (tok_number, s'\<lparr>NumVal := v\<rparr>)))
          else if LastChar s = 35 then
            (case gettok_comment s of
               s' \<Rightarrow> if LastChar s' \<noteq> EOF then gettok s' else Some (tok_eof, s'))
          else if LastChar s = EOF then Some (tok_eof, s)
          else
            (case getchar s of
               (c, s') \<Rightarrow> Some (LastChar s, s'\<lparr>LastChar := c\<rparr>)))"
  by pat_completeness auto
termination
proof (relation "measure (\<lambda>s. length (stdin s))")
  show "wf (measure (\<lambda>s. length (stdin s)))" by simp
next
  fix s0
  assume "LastChar (gettok_comment (gettok_skip_space s0)) \<noteq> EOF"
  then have "length (stdin (gettok_comment (gettok_skip_space s0)))
               < length (stdin (gettok_skip_space s0))"
    by (rule gettok_comment_stdin)
  also have "\<dots> \<le> length (stdin s0)"
    by (rule gettok_skip_space_stdin)
  finally show "(gettok_comment (gettok_skip_space s0), s0) \<in> measure (\<lambda>s. length (stdin s))"
    by simp
qed

declare gettok.simps [simp del]

lemma getchar_unread:
  "getchar s = (c, s') \<Longrightarrow> unread (s'\<lparr>LastChar := c\<rparr>) \<le> length (stdin s)"
  by (auto simp: getchar_def unread_def split: list.splits)

lemma getchar_stdin:
  "getchar s = (c, s') \<Longrightarrow> length (stdin s') \<le> length (stdin s)"
  by (auto simp: getchar_def split: list.splits)

lemma gettok_skip_space_unread: "unread (gettok_skip_space s) \<le> unread s"
proof (induction s rule: gettok_skip_space.induct)
  case (1 s)
  show ?case
  proof (cases "isspace (LastChar s)")
    case True
    obtain c s' where g: "getchar s = (c, s')" by (cases "getchar s")
    from True have "LastChar s \<noteq> EOF" by (auto simp: isspace_def)
    then have "length (stdin s) < unread s" by (simp add: unread_def)
    moreover note getchar_unread [OF g] "1.IH" [OF True g [symmetric]]
    ultimately show ?thesis using True g by (simp add: gettok_skip_space.simps [of s])
  next
    case False
    then show ?thesis by (simp add: gettok_skip_space.simps [of s])
  qed
qed

lemma gettok_identifier_unread: "unread (gettok_identifier s) \<le> length (stdin s)"
proof (induction s rule: gettok_identifier.induct)
  case (1 s)
  obtain c s' where g: "getchar s = (c, s')" by (cases "getchar s")
  show ?case
  proof (cases "isalnum c")
    case True
    from "1.IH" [OF g [symmetric] True] getchar_stdin [OF g] True g
    show ?thesis by (simp add: gettok_identifier.simps [of s])
  next
    case False
    with getchar_unread [OF g] g show ?thesis by (simp add: gettok_identifier.simps [of s])
  qed
qed

lemma gettok_number_unread: "unread (snd (gettok_number NumStr s)) \<le> length (stdin s)"
proof (induction NumStr s rule: gettok_number.induct)
  case (1 NumStr s)
  obtain c s' where g: "getchar s = (c, s')" by (cases "getchar s")
  show ?case
  proof (cases "isdigit c \<or> c = 46")
    case True
    from "1.IH" [OF g [symmetric] True] getchar_stdin [OF g] True g
    show ?thesis by (simp add: gettok_number.simps [of NumStr s])
  next
    case False
    with getchar_unread [OF g] g show ?thesis by (simp add: gettok_number.simps [of NumStr s])
  qed
qed

lemma gettok_comment_unread: "unread (gettok_comment s) \<le> length (stdin s)"
proof (induction s rule: gettok_comment.induct)
  case (1 s)
  obtain c s' where g: "getchar s = (c, s')" by (cases "getchar s")
  show ?case
  proof (cases "c \<noteq> EOF \<and> c \<noteq> 10 \<and> c \<noteq> 13")
    case True
    from "1.IH" [OF g [symmetric] True] getchar_stdin [OF g] True g
    show ?thesis by (simp add: gettok_comment.simps [of s])
  next
    case False
    with getchar_unread [OF g] g show ?thesis by (auto simp: gettok_comment.simps [of s])
  qed
qed

lemma unread_LastChar: "LastChar s \<noteq> EOF \<Longrightarrow> unread s = Suc (length (stdin s))"
  by (simp add: unread_def)

lemma unread_update [simp]:
  "unread (s\<lparr>IdentifierStr := i\<rparr>) = unread s"
  "unread (s\<lparr>NumVal := v\<rparr>) = unread s"
  "unread (s\<lparr>CurTok := t\<rparr>) = unread s"
  "unread (s\<lparr>BinopPrecedence := m\<rparr>) = unread s"
  "unread (s\<lparr>stderr := e\<rparr>) = unread s"
  by (simp_all add: unread_def)

lemma gettok_unread:
  "gettok s0 = Some (tok, s') \<Longrightarrow>
   unread s' \<le> unread s0 \<and> (tok \<noteq> tok_eof \<longrightarrow> unread s' < unread s0)"
proof (induction s0 rule: gettok.induct)
  case (1 s0)
  define s where "s = gettok_skip_space s0"
  have le: "unread s \<le> unread s0" unfolding s_def by (rule gettok_skip_space_unread)
  note eq = "1.prems" [unfolded gettok.simps [of s0], folded s_def]
  consider (ident) "isalpha (LastChar s)"
    | (num) "\<not> isalpha (LastChar s)" "isdigit (LastChar s) \<or> LastChar s = 46"
    | (comment) "\<not> isalpha (LastChar s)" "\<not> (isdigit (LastChar s) \<or> LastChar s = 46)"
        "LastChar s = 35"
    | (other) "\<not> isalpha (LastChar s)" "\<not> (isdigit (LastChar s) \<or> LastChar s = 46)"
        "LastChar s \<noteq> 35"
    by blast
  then show ?case
  proof cases
    case ident
    then have "LastChar s \<noteq> EOF" by (auto simp: isalpha_def)
    then have u: "unread s = Suc (length (stdin s))" by (rule unread_LastChar)
    from eq ident
    have "s' = gettok_identifier (s\<lparr>IdentifierStr := [char_of (LastChar s)]\<rparr>)"
      by (auto split: if_splits)
    with gettok_identifier_unread [of "s\<lparr>IdentifierStr := [char_of (LastChar s)]\<rparr>"]
    have "unread s' \<le> length (stdin s)" by simp
    with u le show ?thesis by simp
  next
    case num
    then have "LastChar s \<noteq> EOF" by (auto simp: isdigit_def)
    then have u: "unread s = Suc (length (stdin s))" by (rule unread_LastChar)
    from eq num obtain v where "s' = (snd (gettok_number [] s))\<lparr>NumVal := v\<rparr>"
      by (auto split: prod.splits option.splits)
    with gettok_number_unread [of "[]" s]
    have "unread s' \<le> length (stdin s)" by simp
    with u le show ?thesis by simp
  next
    case comment
    then have u: "unread s = Suc (length (stdin s))" by (simp add: unread_def)
    show ?thesis
    proof (cases "LastChar (gettok_comment s) \<noteq> EOF")
      case True
      with eq comment have g: "gettok (gettok_comment s) = Some (tok, s')" by simp
      from "1.IH" [folded s_def, OF comment(1) comment(2) comment(3) True g]
      have "unread s' \<le> unread (gettok_comment s)" by simp
      with gettok_comment_unread [of s] u le show ?thesis by simp
    next
      case False
      with eq comment have "tok = tok_eof" "s' = gettok_comment s" by simp_all
      with gettok_comment_unread [of s] u le show ?thesis by simp
    qed
  next
    case other
    show ?thesis
    proof (cases "LastChar s = EOF")
      case True
      with eq other le show ?thesis by simp
    next
      case False
      then have u: "unread s = Suc (length (stdin s))" by (rule unread_LastChar)
      obtain c s1 where g: "getchar s = (c, s1)" by (cases "getchar s")
      with eq other False have "s' = s1\<lparr>LastChar := c\<rparr>" by simp
      with getchar_unread [OF g] u le show ?thesis by simp
    qed
  qed
qed

subsection \<open>The abstract syntax tree\<close>

datatype ExprAST =
    NumberExprAST rat
  | VariableExprAST string
  | BinaryExprAST char ExprAST ExprAST
  | CallExprAST string "ExprAST list"

datatype PrototypeAST = PrototypeAST string "string list"

fun getName :: "PrototypeAST \<Rightarrow> string" where
  "getName (PrototypeAST Name Args) = Name"

datatype FunctionAST = FunctionAST PrototypeAST ExprAST

subsection \<open>The parser\<close>

definition getNextToken :: "state \<Rightarrow> state option" where
  "getNextToken s =
     (case gettok s of
        None \<Rightarrow> None
      | Some (tok, s') \<Rightarrow> Some (s'\<lparr>CurTok := tok\<rparr>))"

definition LogError :: "string \<Rightarrow> state \<Rightarrow> 'a option \<times> state" where
  "LogError Str s = (None, s\<lparr>stderr := stderr s @ [''LogError: '' @ Str @ [CHR 0x0A]]\<rparr>)"

definition LogErrorP :: "string \<Rightarrow> state \<Rightarrow> 'a option \<times> state" where
  "LogErrorP Str s = (case LogError Str s of (r :: unit option, s') \<Rightarrow> (None, s'))"

definition ParseNumberExpr :: "state \<Rightarrow> (ExprAST option \<times> state) option" where
  "ParseNumberExpr s =
     (case getNextToken s of
        None \<Rightarrow> None
      | Some s' \<Rightarrow> Some (Some (NumberExprAST (NumVal s)), s'))"

definition map_subscript :: "('k \<rightharpoonup> int) \<Rightarrow> 'k \<Rightarrow> int \<times> ('k \<rightharpoonup> int)" where
  "map_subscript m k =
     (case m k of
        None \<Rightarrow> (0, m(k \<mapsto> 0))
      | Some v \<Rightarrow> (v, m))"

definition GetTokPrecedence :: "state \<Rightarrow> int \<times> state" where
  "GetTokPrecedence s =
     (if \<not> isascii (CurTok s) then (- 1, s)
      else (case map_subscript (BinopPrecedence s) (char_of (CurTok s)) of
              (TokPrec, m) \<Rightarrow>
                if TokPrec \<le> 0 then (- 1, s\<lparr>BinopPrecedence := m\<rparr>)
                else (TokPrec, s\<lparr>BinopPrecedence := m\<rparr>)))"

function ParseParenExpr :: "state \<Rightarrow> (ExprAST option \<times> state) option"
  and ParseIdentifierExpr :: "state \<Rightarrow> (ExprAST option \<times> state) option"
  and ParseIdentifierExpr_args :: "ExprAST list \<Rightarrow> state \<Rightarrow> (ExprAST list option \<times> state) option"
  and ParsePrimary :: "state \<Rightarrow> (ExprAST option \<times> state) option"
  and ParseExpression :: "state \<Rightarrow> (ExprAST option \<times> state) option"
  and ParseBinOpRHS :: "int \<Rightarrow> ExprAST \<Rightarrow> state \<Rightarrow> (ExprAST option \<times> state) option"
where
  "ParseParenExpr s =
     (case getNextToken s of
        None \<Rightarrow> None
      | Some s1 \<Rightarrow>
          (case ParseExpression s1 of
             None \<Rightarrow> None
           | Some (None, s2) \<Rightarrow> Some (None, s2)
           | Some (Some V, s2) \<Rightarrow>
               if CurTok s2 \<noteq> 41 then Some (LogError (''expected ')'' @ [CHR 0x27]) s2)
               else (case getNextToken s2 of
                       None \<Rightarrow> None
                     | Some s3 \<Rightarrow> Some (Some V, s3))))"
| "ParseIdentifierExpr s =
     (case getNextToken s of
        None \<Rightarrow> None
      | Some s1 \<Rightarrow>
          if CurTok s1 \<noteq> 40 then Some (Some (VariableExprAST (IdentifierStr s)), s1)
          else
            (case getNextToken s1 of
               None \<Rightarrow> None
             | Some s2 \<Rightarrow>
                 (case (if CurTok s2 \<noteq> 41 then ParseIdentifierExpr_args [] s2
                        else Some (Some [], s2)) of
                    None \<Rightarrow> None
                  | Some (None, s3) \<Rightarrow> Some (None, s3)
                  | Some (Some Args, s3) \<Rightarrow>
                      (case getNextToken s3 of
                         None \<Rightarrow> None
                       | Some s4 \<Rightarrow> Some (Some (CallExprAST (IdentifierStr s) Args), s4)))))"
| "ParseIdentifierExpr_args Args s =
     (case ParseExpression s of
        None \<Rightarrow> None
      | Some (None, s1) \<Rightarrow> Some (None, s1)
      | Some (Some A, s1) \<Rightarrow>
          if CurTok s1 = 41 then Some (Some (Args @ [A]), s1)
          else if CurTok s1 \<noteq> 44
          then Some (LogError ''Expected ')' or ',' in argument list'' s1)
          else (case getNextToken s1 of
                  None \<Rightarrow> None
                | Some s2 \<Rightarrow> ParseIdentifierExpr_args (Args @ [A]) s2))"
| "ParsePrimary s =
     (if CurTok s = tok_identifier then ParseIdentifierExpr s
      else if CurTok s = tok_number then ParseNumberExpr s
      else if CurTok s = 40 then ParseParenExpr s
      else Some (LogError ''unknown token when expecting an expression'' s))"
| "ParseExpression s =
     (case ParsePrimary s of
        None \<Rightarrow> None
      | Some (None, s1) \<Rightarrow> Some (None, s1)
      | Some (Some LHS, s1) \<Rightarrow> ParseBinOpRHS 0 LHS s1)"
| "ParseBinOpRHS ExprPrec LHS s =
     (case GetTokPrecedence s of
        (TokPrec, s1) \<Rightarrow>
          if TokPrec < ExprPrec then Some (Some LHS, s1)
          else
            (case getNextToken s1 of
               None \<Rightarrow> None
             | Some s2 \<Rightarrow>
                 (case ParsePrimary s2 of
                    None \<Rightarrow> None
                  | Some (None, s3) \<Rightarrow> Some (None, s3)
                  | Some (Some RHS, s3) \<Rightarrow>
                      (case GetTokPrecedence s3 of
                         (NextPrec, s4) \<Rightarrow>
                           if TokPrec < NextPrec then
                             (case ParseBinOpRHS (TokPrec + 1) RHS s4 of
                                None \<Rightarrow> None
                              | Some (None, s5) \<Rightarrow> Some (None, s5)
                              | Some (Some RHS', s5) \<Rightarrow>
                                  ParseBinOpRHS ExprPrec
                                    (BinaryExprAST (char_of (CurTok s1)) LHS RHS') s5)
                           else
                             ParseBinOpRHS ExprPrec
                               (BinaryExprAST (char_of (CurTok s1)) LHS RHS) s4))))"
  by pat_completeness auto


abbreviation parser_dom where
  "parser_dom \<equiv> ParseParenExpr_ParseIdentifierExpr_ParseIdentifierExpr_args_ParsePrimary_ParseExpression_ParseBinOpRHS_dom"

definition input_left :: "state \<Rightarrow> nat" where
  "input_left s = unread s + (if CurTok s = tok_eof then 0 else 1)"

lemma getNextToken_left:
  "getNextToken s = Some s' \<Longrightarrow>
   input_left s' \<le> input_left s \<and> (CurTok s \<noteq> tok_eof \<longrightarrow> input_left s' < input_left s)"
  by (auto simp: getNextToken_def input_left_def split: option.splits dest!: gettok_unread)

lemma GetTokPrecedence_left:
  "GetTokPrecedence s = (p, s') \<Longrightarrow> input_left s' = input_left s \<and> CurTok s' = CurTok s"
  by (auto simp: GetTokPrecedence_def input_left_def split: if_splits prod.splits)

lemma input_left_update [simp]:
  "input_left (s\<lparr>BinopPrecedence := m\<rparr>) = input_left s"
  "input_left (s\<lparr>stderr := e\<rparr>) = input_left s"
  by (simp_all add: input_left_def)

lemma ParseNumberExpr_left:
  "ParseNumberExpr s = Some (r, s') \<Longrightarrow>
   input_left s' \<le> input_left s \<and> (CurTok s \<noteq> tok_eof \<longrightarrow> input_left s' < input_left s)"
  by (auto simp: ParseNumberExpr_def split: option.splits dest!: getNextToken_left)

lemma parser_left_dom:
  shows "parser_dom (Inl (Inl a)) \<Longrightarrow>
           \<forall>r s'. ParseParenExpr a = Some (r, s') \<longrightarrow>
             input_left s' \<le> input_left a \<and> (CurTok a \<noteq> tok_eof \<longrightarrow> input_left s' < input_left a)"
    and "parser_dom (Inl (Inr (Inl b))) \<Longrightarrow>
           \<forall>r s'. ParseIdentifierExpr b = Some (r, s') \<longrightarrow>
             input_left s' \<le> input_left b \<and> (CurTok b \<noteq> tok_eof \<longrightarrow> input_left s' < input_left b)"
    and "parser_dom (Inl (Inr (Inr (Args, c)))) \<Longrightarrow>
           \<forall>r s'. ParseIdentifierExpr_args Args c = Some (r, s') \<longrightarrow>
             input_left s' \<le> input_left c \<and> (r \<noteq> None \<longrightarrow> input_left s' < input_left c)"
    and "parser_dom (Inr (Inl d)) \<Longrightarrow>
           \<forall>r s'. ParsePrimary d = Some (r, s') \<longrightarrow>
             input_left s' \<le> input_left d \<and> (r \<noteq> None \<longrightarrow> input_left s' < input_left d)"
    and "parser_dom (Inr (Inr (Inl e))) \<Longrightarrow>
           \<forall>r s'. ParseExpression e = Some (r, s') \<longrightarrow>
             input_left s' \<le> input_left e \<and> (r \<noteq> None \<longrightarrow> input_left s' < input_left e)"
    and "parser_dom (Inr (Inr (Inr (ExprPrec, LHS, f)))) \<Longrightarrow>
           \<forall>r s'. ParseBinOpRHS ExprPrec LHS f = Some (r, s') \<longrightarrow> input_left s' \<le> input_left f"
proof (induct rule: ParseParenExpr_ParseIdentifierExpr_ParseIdentifierExpr_args_ParsePrimary_ParseExpression_ParseBinOpRHS.pinduct)
  case (1 s)
  note ps = ParseParenExpr.psimps [OF "1.hyps"(1)]
  show ?case
  proof (intro allI impI)
    fix r s'
    assume eq: "ParseParenExpr s = Some (r, s')"
    from eq obtain s1 where n1: "getNextToken s = Some s1"
      by (auto simp: ps split: option.splits)
    from eq n1 obtain r1 s2 where e1: "ParseExpression s1 = Some (r1, s2)"
      by (auto simp: ps split: option.splits)
    note l1 = getNextToken_left [OF n1]
    from "1.hyps"(2) [OF n1] e1 have l2: "input_left s2 \<le> input_left s1" by blast
    have "input_left s' \<le> input_left s2"
      using eq n1 e1
      by (auto simp: ps LogError_def split: option.splits if_splits
          dest!: getNextToken_left)
    with l1 l2 show "input_left s' \<le> input_left s \<and>
      (CurTok s \<noteq> tok_eof \<longrightarrow> input_left s' < input_left s)" by auto
  qed
next
  case (2 s)
  note ps = ParseIdentifierExpr.psimps [OF "2.hyps"(1)]
  show ?case
  proof (intro allI impI)
    fix r s'
    assume eq: "ParseIdentifierExpr s = Some (r, s')"
    from eq obtain s1 where n1: "getNextToken s = Some s1"
      by (auto simp: ps split: option.splits)
    note l1 = getNextToken_left [OF n1]
    have "input_left s' \<le> input_left s1"
    proof (cases "CurTok s1 \<noteq> 40")
      case True
      with eq n1 show ?thesis by (simp add: ps)
    next
      case False
      with eq n1 obtain s2 where n2: "getNextToken s1 = Some s2"
        by (auto simp: ps split: option.splits)
      note l2 = getNextToken_left [OF n2]
      show ?thesis
      proof (cases "CurTok s2 \<noteq> 41")
        case True
        with eq n1 n2 False obtain ra s3 where
          a: "ParseIdentifierExpr_args [] s2 = Some (ra, s3)"
          by (auto simp: ps split: option.splits)
        from "2.hyps"(2) [OF n1 False n2 True] a
        have l3: "input_left s3 \<le> input_left s2" by blast
        have "input_left s' \<le> input_left s3"
          using eq n1 n2 False True a
          by (auto simp: ps split: option.splits dest!: getNextToken_left)
        with l2 l3 show ?thesis by simp
      next
        case F2: False
        have "input_left s' \<le> input_left s2"
          using eq n1 n2 False F2
          by (auto simp: ps split: option.splits dest!: getNextToken_left)
        with l2 show ?thesis by simp
      qed
    qed
    with l1 show "input_left s' \<le> input_left s \<and>
      (CurTok s \<noteq> tok_eof \<longrightarrow> input_left s' < input_left s)" by auto
  qed
next
  case (3 Args s)
  note ps = ParseIdentifierExpr_args.psimps [OF "3.hyps"(1)]
  show ?case
  proof (intro allI impI)
    fix r s'
    assume eq: "ParseIdentifierExpr_args Args s = Some (r, s')"
    from eq obtain r1 s1 where e1: "ParseExpression s = Some (r1, s1)"
      by (auto simp: ps split: option.splits)
    from "3.hyps"(2) e1
    have l1: "input_left s1 \<le> input_left s" "r1 \<noteq> None \<longrightarrow> input_left s1 < input_left s"
      by blast+
    show "input_left s' \<le> input_left s \<and> (r \<noteq> None \<longrightarrow> input_left s' < input_left s)"
    proof (cases r1)
      case None
      with eq e1 l1 show ?thesis by (auto simp: ps)
    next
      case (Some A)
      show ?thesis
      proof (cases "CurTok s1 = 41 \<or> CurTok s1 \<noteq> 44")
        case True
        with eq e1 Some l1 show ?thesis
          by (auto simp: ps split: if_splits simp: LogError_def)
      next
        case False
        with eq e1 Some obtain s2 where n2: "getNextToken s1 = Some s2"
          by (auto simp: ps split: option.splits)
        from False eq e1 Some n2
        have r: "ParseIdentifierExpr_args (Args @ [A]) s2 = Some (r, s')"
          by (auto simp: ps)
        from False have c: "CurTok s1 \<noteq> 41" "\<not> CurTok s1 \<noteq> 44" by auto
        from "3.hyps"(3) [OF e1 refl Some c n2] r
        have "input_left s' \<le> input_left s2" by blast
        with getNextToken_left [OF n2] l1 Some show ?thesis by auto
      qed
    qed
  qed
next
  case (4 s)
  note ps = ParsePrimary.psimps [OF "4.hyps"(1)]
  show ?case
  proof (intro allI impI)
    fix r s'
    assume eq: "ParsePrimary s = Some (r, s')"
    consider (ident) "CurTok s = tok_identifier"
      | (num) "CurTok s \<noteq> tok_identifier" "CurTok s = tok_number"
      | (paren) "CurTok s \<noteq> tok_identifier" "CurTok s \<noteq> tok_number" "CurTok s = 40"
      | (other) "CurTok s \<noteq> tok_identifier" "CurTok s \<noteq> tok_number" "CurTok s \<noteq> 40"
      by blast
    then show "input_left s' \<le> input_left s \<and> (r \<noteq> None \<longrightarrow> input_left s' < input_left s)"
    proof cases
      case ident
      with eq have "ParseIdentifierExpr s = Some (r, s')" by (simp add: ps)
      with "4.hyps"(2) [OF ident] ident show ?thesis by auto
    next
      case num
      with eq have "ParseNumberExpr s = Some (r, s')" by (simp add: ps)
      from ParseNumberExpr_left [OF this] num show ?thesis by auto
    next
      case paren
      with eq have "ParseParenExpr s = Some (r, s')" by (simp add: ps)
      with "4.hyps"(3) [OF paren] paren show ?thesis by auto
    next
      case other
      with eq show ?thesis by (auto simp: ps simp: LogError_def)
    qed
  qed
next
  case (5 s)
  note ps = ParseExpression.psimps [OF "5.hyps"(1)]
  show ?case
  proof (intro allI impI)
    fix r s'
    assume eq: "ParseExpression s = Some (r, s')"
    from eq obtain r1 s1 where e1: "ParsePrimary s = Some (r1, s1)"
      by (auto simp: ps split: option.splits)
    from "5.hyps"(2) e1
    have l1: "input_left s1 \<le> input_left s" "r1 \<noteq> None \<longrightarrow> input_left s1 < input_left s"
      by blast+
    show "input_left s' \<le> input_left s \<and> (r \<noteq> None \<longrightarrow> input_left s' < input_left s)"
    proof (cases r1)
      case None
      with eq e1 l1 show ?thesis by (auto simp: ps)
    next
      case (Some L)
      with eq e1 have b: "ParseBinOpRHS 0 L s1 = Some (r, s')" by (simp add: ps)
      from "5.hyps"(3) [OF e1 refl Some] b have "input_left s' \<le> input_left s1" by blast
      with l1 Some show ?thesis by auto
    qed
  qed
next
  case (6 ExprPrec LHS s)
  note ps = ParseBinOpRHS.psimps [OF "6.hyps"(1)]
  show ?case
  proof (intro allI impI)
    fix r s'
    assume eq: "ParseBinOpRHS ExprPrec LHS s = Some (r, s')"
    obtain TokPrec s1 where g1: "(TokPrec, s1) = GetTokPrecedence s"
      by (cases "GetTokPrecedence s") auto
    note l1 = GetTokPrecedence_left [OF g1 [symmetric]]
    show "input_left s' \<le> input_left s"
    proof (cases "TokPrec < ExprPrec")
      case True
      with eq g1 [symmetric] l1 show ?thesis by (auto simp: ps)
    next
      case False
      with eq g1 [symmetric] obtain s2 where n2: "getNextToken s1 = Some s2"
        by (auto simp: ps split: option.splits)
      note l2 = getNextToken_left [OF n2]
      from eq g1 [symmetric] False n2 obtain r3 s3 where p3: "ParsePrimary s2 = Some (r3, s3)"
        by (auto simp: ps split: option.splits)
      from "6.hyps"(2) [OF g1 False n2] p3
      have l3: "input_left s3 \<le> input_left s2" by blast
      show ?thesis
      proof (cases r3)
        case None
        with eq g1 [symmetric] False n2 p3 l1 l2 l3 show ?thesis by (auto simp: ps)
      next
        case (Some RHS)
        obtain NextPrec s4 where g4: "(NextPrec, s4) = GetTokPrecedence s3"
          by (cases "GetTokPrecedence s3") auto
        note l4 = GetTokPrecedence_left [OF g4 [symmetric]]
        show ?thesis
        proof (cases "TokPrec < NextPrec")
          case True
          with eq g1 [symmetric] False n2 p3 Some g4 [symmetric]
          obtain r5 s5 where b5: "ParseBinOpRHS (TokPrec + 1) RHS s4 = Some (r5, s5)"
            by (auto simp: ps split: option.splits)
          from "6.hyps"(3) [OF g1 False n2 p3 refl Some g4 True] b5
          have l5: "input_left s5 \<le> input_left s4" by blast
          show ?thesis
          proof (cases r5)
            case None
            with eq g1 [symmetric] False n2 p3 Some g4 [symmetric] True b5 l1 l2 l3 l4 l5
            show ?thesis by (auto simp: ps)
          next
            case S5: (Some RHS')
            with eq g1 [symmetric] False n2 p3 Some g4 [symmetric] True b5
            have "ParseBinOpRHS ExprPrec (BinaryExprAST (char_of (CurTok s1)) LHS RHS') s5
                    = Some (r, s')"
              by (simp add: ps)
            with "6.hyps"(4) [OF g1 False n2 p3 refl Some g4 True b5 refl S5]
            have "input_left s' \<le> input_left s5" by blast
            with l1 l2 l3 l4 l5 show ?thesis by simp
          qed
        next
          case F: False
          with eq g1 [symmetric] False n2 p3 Some g4 [symmetric]
          have "ParseBinOpRHS ExprPrec (BinaryExprAST (char_of (CurTok s1)) LHS RHS) s4
                  = Some (r, s')"
            by (simp add: ps)
          with "6.hyps"(5) [OF g1 False n2 p3 refl Some g4 F]
          have "input_left s' \<le> input_left s4" by blast
          with l1 l2 l3 l4 show ?thesis by simp
        qed
      qed
    qed
  qed
qed

definition parser_measure ::
  "(state + state + ExprAST list \<times> state) + state + state + int \<times> ExprAST \<times> state \<Rightarrow> nat"
where
  "parser_measure x =
     (case x of
        Inl (Inl s) \<Rightarrow> 4 * input_left s + (if CurTok s = 40 then 0 else 3)
      | Inl (Inr (Inl s)) \<Rightarrow> 4 * input_left s
      | Inl (Inr (Inr (Args, s))) \<Rightarrow> 4 * input_left s + 3
      | Inr (Inl s) \<Rightarrow> 4 * input_left s + 1
      | Inr (Inr (Inl s)) \<Rightarrow> 4 * input_left s + 2
      | Inr (Inr (Inr (ExprPrec, LHS, s))) \<Rightarrow> 4 * input_left s + 2)"

lemma ParsePrimary_dom_less:
  "parser_dom (Inr (Inl s)) \<Longrightarrow> ParsePrimary s = Some (Some e, s') \<Longrightarrow>
   input_left s' < input_left s"
  using parser_left_dom(4) [of s] by auto

lemma ParseExpression_dom_less:
  "parser_dom (Inr (Inr (Inl s))) \<Longrightarrow> ParseExpression s = Some (Some e, s') \<Longrightarrow>
   input_left s' < input_left s"
  using parser_left_dom(5) [of s] by auto

lemma ParseBinOpRHS_dom_le:
  "parser_dom (Inr (Inr (Inr (ExprPrec, LHS, s)))) \<Longrightarrow>
   ParseBinOpRHS ExprPrec LHS s = Some (r, s') \<Longrightarrow> input_left s' \<le> input_left s"
  using parser_left_dom(6) [of ExprPrec LHS s] by auto

text \<open>
  Every argument of the six functions lies in the accessible part of their call
  relation: no chain of recursive calls is infinite.
\<close>

lemma parser_dom_all: "All parser_dom"
proof (relation "measure parser_measure", goal_cases)
  case 1
  show ?case by simp
next
  case (2 s s1)
  from getNextToken_left [OF 2] show ?case
    by (auto simp: parser_measure_def)
next
  case (3 s s1 s2)
  from getNextToken_left [OF 3(1)] getNextToken_left [OF 3(3)] 3(2) show ?case
    by (auto simp: parser_measure_def)
next
  case (4 Args s)
  show ?case by (simp add: parser_measure_def)
next
  case (5 Args s x2 x y A s2)
  from 5 have "ParseExpression s = Some (Some A, y)" by simp
  from ParseExpression_dom_less [OF 5(7) this] getNextToken_left [OF 5(6)] show ?case
    by (auto simp: parser_measure_def)
next
  case (6 s)
  then show ?case by (simp add: parser_measure_def)
next
  case (7 s)
  then show ?case by (simp add: parser_measure_def)
next
  case (8 s)
  then show ?case by (simp add: parser_measure_def)
next
  case (9 s x2 x y L)
  from 9 have "ParsePrimary s = Some (Some L, y)" by simp
  from ParsePrimary_dom_less [OF 9(4) this] show ?case
    by (simp add: parser_measure_def)
next
  case (10 ExprPrec LHS s TokPrec s1 s2)
  from GetTokPrecedence_left [OF 10(1) [symmetric]] getNextToken_left [OF 10(3)]
  show ?case by (auto simp: parser_measure_def)
next
  case (11 ExprPrec LHS s TokPrec s1 s2 x2a xa s3 RHS NextPrec s4)
  from 11 have "ParsePrimary s2 = Some (Some RHS, s3)" by simp
  from ParsePrimary_dom_less [OF 11(9) this]
    GetTokPrecedence_left [OF 11(1) [symmetric]] getNextToken_left [OF 11(3)]
    GetTokPrecedence_left [OF 11(7) [symmetric]]
  show ?case by (auto simp: parser_measure_def)
next
  case (12 ExprPrec LHS s TokPrec s1 s2 x2a xa s3 RHS NextPrec s4 x2c xb s5 RHS')
  from 12 have p: "ParsePrimary s2 = Some (Some RHS, s3)"
    and b: "ParseBinOpRHS (TokPrec + 1) RHS s4 = Some (Some RHS', s5)" by simp_all
  from ParsePrimary_dom_less [OF 12(13) p] ParseBinOpRHS_dom_le [OF 12(12) b]
    GetTokPrecedence_left [OF 12(1) [symmetric]] getNextToken_left [OF 12(3)]
    GetTokPrecedence_left [OF 12(7) [symmetric]]
  show ?case by (auto simp: parser_measure_def)
next
  case (13 ExprPrec LHS s TokPrec s1 s2 x2a xa s3 RHS NextPrec s4)
  from 13 have "ParsePrimary s2 = Some (Some RHS, s3)" by simp
  from ParsePrimary_dom_less [OF 13(9) this]
    GetTokPrecedence_left [OF 13(1) [symmetric]] getNextToken_left [OF 13(3)]
    GetTokPrecedence_left [OF 13(7) [symmetric]]
  show ?case by (auto simp: parser_measure_def)
qed

termination ParseParenExpr
  by (rule parser_dom_all)

declare ParseParenExpr.simps [simp del] ParseIdentifierExpr.simps [simp del]
  ParseIdentifierExpr_args.simps [simp del] ParsePrimary.simps [simp del]
  ParseExpression.simps [simp del] ParseBinOpRHS.simps [simp del]

text \<open>
  \<open>while (getNextToken() == tok_identifier) ArgNames.push_back(IdentifierStr);\<close>
\<close>

function ParsePrototype_args :: "string list \<Rightarrow> state \<Rightarrow> (string list \<times> state) option" where
  "ParsePrototype_args ArgNames s =
     (case getNextToken s of
        None \<Rightarrow> None
      | Some s1 \<Rightarrow>
          if CurTok s1 = tok_identifier
          then ParsePrototype_args (ArgNames @ [IdentifierStr s1]) s1
          else Some (ArgNames, s1))"
  by pat_completeness auto
termination
  by (relation "measure (\<lambda>(ArgNames, s). unread s)")
     (auto simp: getNextToken_def split: option.splits dest!: gettok_unread)

declare ParsePrototype_args.simps [simp del]

definition ParsePrototype :: "state \<Rightarrow> (PrototypeAST option \<times> state) option" where
  "ParsePrototype s =
     (if CurTok s \<noteq> tok_identifier
      then Some (LogErrorP ''Expected function name in prototype'' s)
      else
        (case getNextToken s of
           None \<Rightarrow> None
         | Some s1 \<Rightarrow>
             if CurTok s1 \<noteq> 40 then Some (LogErrorP ''Expected '(' in prototype'' s1)
             else
               (case ParsePrototype_args [] s1 of
                  None \<Rightarrow> None
                | Some (ArgNames, s2) \<Rightarrow>
                    if CurTok s2 \<noteq> 41
                    then Some (LogErrorP ''Expected ')' in prototype'' s2)
                    else
                      (case getNextToken s2 of
                         None \<Rightarrow> None
                       | Some s3 \<Rightarrow>
                           Some (Some (PrototypeAST (IdentifierStr s) ArgNames), s3)))))"

definition ParseDefinition :: "state \<Rightarrow> (FunctionAST option \<times> state) option" where
  "ParseDefinition s =
     (case getNextToken s of
        None \<Rightarrow> None
      | Some s1 \<Rightarrow>
          (case ParsePrototype s1 of
             None \<Rightarrow> None
           | Some (None, s2) \<Rightarrow> Some (None, s2)
           | Some (Some Proto, s2) \<Rightarrow>
               (case ParseExpression s2 of
                  None \<Rightarrow> None
                | Some (None, s3) \<Rightarrow> Some (None, s3)
                | Some (Some E, s3) \<Rightarrow> Some (Some (FunctionAST Proto E), s3))))"

definition ParseExtern :: "state \<Rightarrow> (PrototypeAST option \<times> state) option" where
  "ParseExtern s =
     (case getNextToken s of
        None \<Rightarrow> None
      | Some s1 \<Rightarrow> ParsePrototype s1)"

definition ParseTopLevelExpr :: "state \<Rightarrow> (FunctionAST option \<times> state) option" where
  "ParseTopLevelExpr s =
     (case ParseExpression s of
        None \<Rightarrow> None
      | Some (None, s1) \<Rightarrow> Some (None, s1)
      | Some (Some E, s1) \<Rightarrow> Some (Some (FunctionAST (PrototypeAST [] []) E), s1))"

subsection \<open>Running the parser on an input\<close>

text \<open>
  \<open>main\<close> reads the first token and enters \<open>MainLoop\<close>, which dispatches on it to one of
  the entry points \<open>ParseDefinition\<close>, \<open>ParseExtern\<close> and \<open>ParseTopLevelExpr\<close>.
  \<open>run_parser\<close> is that first step followed by one call of a parsing function; it
  returns the node, if any, and what was written to standard error.
\<close>

definition run_parser ::
  "(state \<Rightarrow> ('a option \<times> state) option) \<Rightarrow> string \<Rightarrow> ('a option \<times> string list) option"
where
  "run_parser parse inp =
     (case getNextToken (initial_state inp) of
        None \<Rightarrow> None
      | Some s \<Rightarrow>
          (case parse s of
             None \<Rightarrow> None
           | Some (r, s') \<Rightarrow> Some (r, stderr s')))"

subsection \<open>The precedence table\<close>

text \<open>
  A table is the declared one when it is the initial table, up to entries of value 0
  for characters the initial table does not hold (what \<open>operator[]\<close> inserts).
  \<open>lookups\<close> is a sequence of calls of \<open>GetTokPrecedence\<close>, each with its own current
  token.
\<close>

definition declared_binops :: "(char \<rightharpoonup> int) \<Rightarrow> bool" where
  "declared_binops m \<longleftrightarrow>
     (\<forall>c. m c = BinopPrecedence (initial_state []) c \<or>
          (BinopPrecedence (initial_state []) c = None \<and> m c = Some 0))"

definition lookups :: "int list \<Rightarrow> state \<Rightarrow> state" where
  "lookups toks s = fold (\<lambda>tok s. snd (GetTokPrecedence (s\<lparr>CurTok := tok\<rparr>))) toks s"

lemma char_of_ascii_eq:
  "0 \<le> t \<Longrightarrow> t \<le> 127 \<Longrightarrow> char_of (t :: int) = c \<longleftrightarrow> t = of_char c"
  by (auto simp: char_of_eq_iff take_bit_eq_mod)

lemma BinopPrecedence_initial: "BinopPrecedence (initial_state inp) = BinopPrecedence (initial_state [])"
  by (simp add: initial_state_def)

lemma declared_binops_initial: "declared_binops (BinopPrecedence (initial_state inp))"
  by (simp add: declared_binops_def BinopPrecedence_initial [of inp])

lemma map_subscript_declared:
  assumes "declared_binops m"
  shows "declared_binops (snd (map_subscript m k))"
proof (cases "m k")
  case None
  then have eq: "snd (map_subscript m k) = m(k \<mapsto> 0)" by (simp add: map_subscript_def)
  from assms None have "BinopPrecedence (initial_state []) k = None"
    unfolding declared_binops_def by (metis option.distinct(1))
  with assms show ?thesis unfolding eq declared_binops_def by simp
next
  case (Some v)
  then have "snd (map_subscript m k) = m" by (simp add: map_subscript_def)
  with assms show ?thesis by simp
qed

lemma map_subscript_value:
  assumes "declared_binops m"
  shows "fst (map_subscript m k) =
     (case BinopPrecedence (initial_state []) k of None \<Rightarrow> 0 | Some p \<Rightarrow> p)"
proof -
  from assms have "m k = BinopPrecedence (initial_state []) k \<or>
          (BinopPrecedence (initial_state []) k = None \<and> m k = Some 0)"
    unfolding declared_binops_def by blast
  then show ?thesis by (auto simp: map_subscript_def split: option.splits)
qed

lemma GetTokPrecedence_value:
  assumes "declared_binops (BinopPrecedence s)"
  shows "fst (GetTokPrecedence s) =
     (if CurTok s = 60 then 10
      else if CurTok s = 43 \<or> CurTok s = 45 then 20
      else if CurTok s = 42 \<or> CurTok s = 47 then 40
      else - 1)"
proof (cases "isascii (CurTok s)")
  case False
  then show ?thesis by (auto simp: GetTokPrecedence_def isascii_def)
next
  case True
  then have r: "0 \<le> CurTok s" "CurTok s \<le> 127" by (simp_all add: isascii_def)
  have ce: "char_of (CurTok s) = CHR ''<'' \<longleftrightarrow> CurTok s = 60"
    "char_of (CurTok s) = CHR ''+'' \<longleftrightarrow> CurTok s = 43"
    "char_of (CurTok s) = CHR ''-'' \<longleftrightarrow> CurTok s = 45"
    "char_of (CurTok s) = CHR ''*'' \<longleftrightarrow> CurTok s = 42"
    "char_of (CurTok s) = CHR ''/'' \<longleftrightarrow> CurTok s = 47"
    by (simp_all add: char_of_ascii_eq [OF r])
  obtain p m where ms: "map_subscript (BinopPrecedence s) (char_of (CurTok s)) = (p, m)"
    by (cases "map_subscript (BinopPrecedence s) (char_of (CurTok s))")
  consider "CurTok s = 60" | "CurTok s = 43" | "CurTok s = 45" | "CurTok s = 42" | "CurTok s = 47"
    | "CurTok s \<notin> {60, 43, 45, 42, 47}"
    by blast
  then have "BinopPrecedence (initial_state []) (char_of (CurTok s)) =
     (if CurTok s = 60 then Some 10
      else if CurTok s = 43 \<or> CurTok s = 45 then Some 20
      else if CurTok s = 42 \<or> CurTok s = 47 then Some 40
      else None)"
  proof cases
    case 6
    with ce have "char_of (CurTok s) \<noteq> CHR ''<''" "char_of (CurTok s) \<noteq> CHR ''+''"
      "char_of (CurTok s) \<noteq> CHR ''-''" "char_of (CurTok s) \<noteq> CHR ''*''"
      "char_of (CurTok s) \<noteq> CHR ''/''"
      by simp_all
    with 6 show ?thesis by (simp add: initial_state_def)
  qed (simp_all add: initial_state_def char_of_def)
  with map_subscript_value [OF assms, of "char_of (CurTok s)"] ms
  have p: "p = (if CurTok s = 60 then 10
      else if CurTok s = 43 \<or> CurTok s = 45 then 20
      else if CurTok s = 42 \<or> CurTok s = 47 then 40
      else 0)"
    by simp
  from True ms have "fst (GetTokPrecedence s) = (if p \<le> 0 then - 1 else p)"
    by (simp add: GetTokPrecedence_def)
  with p show ?thesis by simp
qed

lemma GetTokPrecedence_declared:
  assumes "declared_binops (BinopPrecedence s)"
  shows "declared_binops (BinopPrecedence (snd (GetTokPrecedence s)))"
proof (cases "isascii (CurTok s)")
  case False
  with assms show ?thesis by (simp add: GetTokPrecedence_def)
next
  case True
  then have "BinopPrecedence (snd (GetTokPrecedence s))
    = snd (map_subscript (BinopPrecedence s) (char_of (CurTok s)))"
    by (simp add: GetTokPrecedence_def split: prod.splits)
  with map_subscript_declared [OF assms] show ?thesis by simp
qed

lemma GetTokPrecedence_frame:
  "snd (GetTokPrecedence s) = s\<lparr>BinopPrecedence := BinopPrecedence (snd (GetTokPrecedence s))\<rparr>"
  by (auto simp: GetTokPrecedence_def map_subscript_def split: option.splits)

lemma lookups_declared:
  "declared_binops (BinopPrecedence s) \<Longrightarrow> declared_binops (BinopPrecedence (lookups toks s))"
proof (induction toks arbitrary: s)
  case Nil
  then show ?case by (simp add: lookups_def)
next
  case (Cons t toks)
  from Cons.prems have "declared_binops (BinopPrecedence (s\<lparr>CurTok := t\<rparr>))" by simp
  from Cons.IH [OF GetTokPrecedence_declared [OF this]] show ?case by (simp add: lookups_def)
qed

subsection \<open>Claims on the precedence table\<close>

text \<open>
  C3. Whatever the current token, \<open>GetTokPrecedence\<close> returns 10 for \<open><\<close> (60), 20 for
  \<open>+\<close> (43) and \<open>-\<close> (45), 40 for \<open>*\<close> (42) and \<open>/\<close> (47), and -1 for every other token:
  the negative token codes, the codes above 127 and the ASCII characters that are not
  operators. The table is the declared one, as it is in every state the program reaches.
\<close>

theorem GetTokPrecedence_table:
  "declared_binops (BinopPrecedence s) \<Longrightarrow>
   fst (GetTokPrecedence s) =
     (if CurTok s = 60 then 10
      else if CurTok s = 43 \<or> CurTok s = 45 then 20
      else if CurTok s = 42 \<or> CurTok s = 47 then 40
      else - 1)"
  by (rule GetTokPrecedence_value)

theorem GetTokPrecedence_table_witness:
  "declared_binops (BinopPrecedence (initial_state ''1+2'')) \<and>
   fst (GetTokPrecedence ((initial_state ''1+2'')\<lparr>CurTok := 43\<rparr>)) = 20 \<and>
   fst (GetTokPrecedence ((initial_state ''1+2'')\<lparr>CurTok := 60\<rparr>)) = 10 \<and>
   fst (GetTokPrecedence ((initial_state ''1+2'')\<lparr>CurTok := 47\<rparr>)) = 40 \<and>
   fst (GetTokPrecedence ((initial_state ''1+2'')\<lparr>CurTok := 40\<rparr>)) = - 1 \<and>
   fst (GetTokPrecedence ((initial_state ''1+2'')\<lparr>CurTok := tok_identifier\<rparr>)) = - 1 \<and>
   fst (GetTokPrecedence ((initial_state ''1+2'')\<lparr>CurTok := 200\<rparr>)) = - 1"
  using GetTokPrecedence_table [of "(initial_state ''1+2'')\<lparr>CurTok := 43\<rparr>"]
    GetTokPrecedence_table [of "(initial_state ''1+2'')\<lparr>CurTok := 60\<rparr>"]
    GetTokPrecedence_table [of "(initial_state ''1+2'')\<lparr>CurTok := 47\<rparr>"]
    GetTokPrecedence_table [of "(initial_state ''1+2'')\<lparr>CurTok := 40\<rparr>"]
    GetTokPrecedence_table [of "(initial_state ''1+2'')\<lparr>CurTok := tok_identifier\<rparr>"]
    GetTokPrecedence_table [of "(initial_state ''1+2'')\<lparr>CurTok := 200\<rparr>"]
    declared_binops_initial [of "''1+2''"]
  by simp

text \<open>
  C10. Looking up an ASCII character that is not in the table inserts it with value 0
  (here \<open>a\<close>, code 97). All the same, after any sequence of lookups the precedence
  returned for any token is the one returned before them, and the entries of the five
  operators are unchanged.
\<close>

theorem BinopPrecedence_observably_constant:
  "BinopPrecedence (initial_state inp) CHR ''a'' = None \<and>
   BinopPrecedence (snd (GetTokPrecedence ((initial_state inp)\<lparr>CurTok := 97\<rparr>))) CHR ''a'' = Some 0 \<and>
   (declared_binops (BinopPrecedence s) \<longrightarrow>
      fst (GetTokPrecedence ((lookups toks s)\<lparr>CurTok := tok\<rparr>))
        = fst (GetTokPrecedence (s\<lparr>CurTok := tok\<rparr>)) \<and>
      (\<forall>c \<in> set ''<+-*/''. BinopPrecedence (lookups toks s) c = BinopPrecedence s c))"
proof -
  have a: "BinopPrecedence (initial_state inp) CHR ''a'' = None"
    by (simp add: initial_state_def)
  have b: "BinopPrecedence (snd (GetTokPrecedence ((initial_state inp)\<lparr>CurTok := 97\<rparr>))) CHR ''a''
             = Some 0"
    by (simp add: initial_state_def GetTokPrecedence_def map_subscript_def isascii_def char_of_def)
  have c: "fst (GetTokPrecedence ((lookups toks s)\<lparr>CurTok := tok\<rparr>))
        = fst (GetTokPrecedence (s\<lparr>CurTok := tok\<rparr>)) \<and>
      (\<forall>c \<in> set ''<+-*/''. BinopPrecedence (lookups toks s) c = BinopPrecedence s c)"
    if d: "declared_binops (BinopPrecedence s)"
  proof -
    from lookups_declared [OF d] have d': "declared_binops (BinopPrecedence (lookups toks s))" .
    from d have "declared_binops (BinopPrecedence (s\<lparr>CurTok := tok\<rparr>))" by simp
    moreover from d' have "declared_binops (BinopPrecedence ((lookups toks s)\<lparr>CurTok := tok\<rparr>))"
      by simp
    ultimately have "fst (GetTokPrecedence ((lookups toks s)\<lparr>CurTok := tok\<rparr>))
        = fst (GetTokPrecedence (s\<lparr>CurTok := tok\<rparr>))"
      by (simp add: GetTokPrecedence_value)
    moreover have "BinopPrecedence (lookups toks s) c = BinopPrecedence s c"
      if "c \<in> set ''<+-*/''" for c
    proof -
      from that have "BinopPrecedence (initial_state []) c \<noteq> None"
        by (auto simp: initial_state_def)
      with d d' show ?thesis unfolding declared_binops_def by metis
    qed
    ultimately show ?thesis by simp
  qed
  from a b c show ?thesis by blast
qed

theorem BinopPrecedence_observably_constant_witness:
  "declared_binops (BinopPrecedence (initial_state ''a+b'')) \<and>
   fst (GetTokPrecedence ((lookups [97, 43, 98, 97] (initial_state ''a+b''))\<lparr>CurTok := 97\<rparr>)) = - 1 \<and>
   fst (GetTokPrecedence ((lookups [97, 43, 98, 97] (initial_state ''a+b''))\<lparr>CurTok := 43\<rparr>)) = 20 \<and>
   BinopPrecedence (lookups [97, 43, 98, 97] (initial_state ''a+b'')) CHR ''*'' = Some 40 \<and>
   BinopPrecedence (lookups [97, 43, 98, 97] (initial_state ''a+b'')) CHR ''a'' = Some 0"
  using BinopPrecedence_observably_constant [where inp = "''a+b''" and s = "initial_state ''a+b''"
      and toks = "[97, 43, 98, 97]" and tok = 97]
    BinopPrecedence_observably_constant [where inp = "''a+b''" and s = "initial_state ''a+b''"
      and toks = "[97, 43, 98, 97]" and tok = 43]
    declared_binops_initial [of "''a+b''"]
  by (simp add: initial_state_def GetTokPrecedence_def map_subscript_def isascii_def char_of_def
      lookups_def)

subsection \<open>Termination of expression parsing\<close>

lemma ParsePrimary_left:
  "ParsePrimary s = Some (r, s') \<Longrightarrow>
   input_left s' \<le> input_left s \<and> (r \<noteq> None \<longrightarrow> input_left s' < input_left s)"
  using parser_left_dom(4) [of s] parser_dom_all by auto

lemma ParseExpression_left:
  "ParseExpression s = Some (r, s') \<Longrightarrow>
   input_left s' \<le> input_left s \<and> (r \<noteq> None \<longrightarrow> input_left s' < input_left s)"
  using parser_left_dom(5) [of s] parser_dom_all by auto

lemma ParseBinOpRHS_left:
  "ParseBinOpRHS ExprPrec LHS s = Some (r, s') \<Longrightarrow> input_left s' \<le> input_left s"
  using parser_left_dom(6) [of ExprPrec LHS s] parser_dom_all by auto

lemma GetTokPrecedence_not_eof:
  assumes "GetTokPrecedence s = (TokPrec, s1)" and "0 \<le> TokPrec"
  shows "CurTok s \<noteq> tok_eof"
  using assms by (auto simp: GetTokPrecedence_def isascii_def split: if_splits prod.splits)

text \<open>
  C9. Parsing an expression terminates: the arguments of \<open>ParseExpression\<close> and of
  \<open>ParseBinOpRHS\<close> lie in the accessible part of the call relation of the parsing
  functions, whatever the state, and these functions never leave more input than they
  found. An iteration of the loop of \<open>ParseBinOpRHS\<close> that gets past the operator and
  its primary has consumed both (the measure of the input left has gone down by two at
  least), so the recursive call for a tighter operator, and the next iteration, start
  with strictly less input than the iteration did.
\<close>

theorem ParseExpression_terminates:
  "parser_dom (Inr (Inr (Inl s))) \<and>
   parser_dom (Inr (Inr (Inr (ExprPrec, LHS, s)))) \<and>
   (\<forall>r s'. ParseExpression s = Some (r, s') \<longrightarrow> input_left s' \<le> input_left s) \<and>
   (\<forall>r s'. ParseBinOpRHS ExprPrec LHS s = Some (r, s') \<longrightarrow> input_left s' \<le> input_left s) \<and>
   (\<forall>TokPrec s1 s2 RHS s3 NextPrec s4.
      0 \<le> ExprPrec \<and> GetTokPrecedence s = (TokPrec, s1) \<and> \<not> TokPrec < ExprPrec \<and>
      getNextToken s1 = Some s2 \<and> ParsePrimary s2 = Some (Some RHS, s3) \<and>
      GetTokPrecedence s3 = (NextPrec, s4) \<longrightarrow>
      input_left s3 + 2 \<le> input_left s \<and> input_left s4 < input_left s)"
proof (intro conjI allI impI)
  show "parser_dom (Inr (Inr (Inl s)))"
    and "parser_dom (Inr (Inr (Inr (ExprPrec, LHS, s))))"
    using parser_dom_all by simp_all
next
  fix r s'
  assume "ParseExpression s = Some (r, s')"
  then show "input_left s' \<le> input_left s" by (simp add: ParseExpression_left)
next
  fix r s'
  assume "ParseBinOpRHS ExprPrec LHS s = Some (r, s')"
  then show "input_left s' \<le> input_left s" by (rule ParseBinOpRHS_left)
next
  fix TokPrec s1 s2 RHS s3 NextPrec s4
  assume a: "0 \<le> ExprPrec \<and> GetTokPrecedence s = (TokPrec, s1) \<and> \<not> TokPrec < ExprPrec \<and>
      getNextToken s1 = Some s2 \<and> ParsePrimary s2 = Some (Some RHS, s3) \<and>
      GetTokPrecedence s3 = (NextPrec, s4)"
  then have g: "GetTokPrecedence s = (TokPrec, s1)" and p: "0 \<le> TokPrec"
    and n: "getNextToken s1 = Some s2" and pp: "ParsePrimary s2 = Some (Some RHS, s3)"
    and g3: "GetTokPrecedence s3 = (NextPrec, s4)"
    by simp_all
  from GetTokPrecedence_not_eof [OF g p] GetTokPrecedence_left [OF g]
  have "CurTok s1 \<noteq> tok_eof" "input_left s1 = input_left s" by simp_all
  with getNextToken_left [OF n] have "input_left s2 < input_left s" by simp
  moreover from ParsePrimary_left [OF pp] have "input_left s3 < input_left s2" by simp
  ultimately show l: "input_left s3 + 2 \<le> input_left s" by simp
  from GetTokPrecedence_left [OF g3] l show "input_left s4 < input_left s" by simp
qed

text \<open>The equations that evaluate the lexer and the parser on a concrete input.\<close>

lemmas lexer_eval = gettok.simps gettok_skip_space.simps gettok_identifier.simps
  gettok_number.simps gettok_comment.simps getchar_def isspace_def isalpha_def isdigit_def
  isalnum_def initial_state_def stod_def out_of_range_def decimal_def char_of_def
  getNextToken_def

lemmas parser_eval = ParseParenExpr.simps ParseIdentifierExpr.simps
  ParseIdentifierExpr_args.simps ParsePrimary.simps ParseExpression.simps ParseBinOpRHS.simps
  ParseNumberExpr_def GetTokPrecedence_def map_subscript_def isascii_def LogError_def
  LogErrorP_def ParsePrototype_args.simps ParsePrototype_def ParseDefinition_def
  ParseExtern_def ParseTopLevelExpr_def run_parser_def

theorem ParseExpression_terminates_witness:
  "fst (GetTokPrecedence ((initial_state ''2*3'')\<lparr>CurTok := 43\<rparr>)) = 20 \<and>
   map_option (\<lambda>(r, s3). (r, CurTok s3))
     (ParsePrimary (the (getNextToken
        (snd (GetTokPrecedence ((initial_state ''2*3'')\<lparr>CurTok := 43\<rparr>))))))
     = Some (Some (NumberExprAST 2), 42) \<and>
   parser_dom (Inr (Inr (Inl ((initial_state ''2*3'')\<lparr>CurTok := 43\<rparr>)))) \<and>
   parser_dom (Inr (Inr (Inr (0, NumberExprAST 1, (initial_state ''2*3'')\<lparr>CurTok := 43\<rparr>)))) \<and>
   input_left (snd (the (ParsePrimary (the (getNextToken
        (snd (GetTokPrecedence ((initial_state ''2*3'')\<lparr>CurTok := 43\<rparr>)))))))) + 2
     \<le> input_left ((initial_state ''2*3'')\<lparr>CurTok := 43\<rparr>)"
proof -
  let ?s = "(initial_state ''2*3'')\<lparr>CurTok := 43\<rparr>"
  let ?s1 = "snd (GetTokPrecedence ?s)"
  let ?s2 = "the (getNextToken ?s1)"
  let ?s3 = "snd (the (ParsePrimary ?s2))"
  have g: "GetTokPrecedence ?s = (20, ?s1)"
    by (simp add: parser_eval lexer_eval)
  have n: "getNextToken ?s1 = Some ?s2"
    by (simp add: parser_eval lexer_eval)
  have p: "ParsePrimary ?s2 = Some (Some (NumberExprAST 2), ?s3)"
    by (simp add: parser_eval lexer_eval)
  have g3: "GetTokPrecedence ?s3 = (fst (GetTokPrecedence ?s3), snd (GetTokPrecedence ?s3))"
    by simp
  have a: "(0::int) \<le> 0" "\<not> (20::int) < 0" by simp_all
  from ParseExpression_terminates [of ?s 0 "NumberExprAST 1"] g n p g3 a
  have d: "parser_dom (Inr (Inr (Inl ?s)))"
    "parser_dom (Inr (Inr (Inr (0, NumberExprAST 1, ?s))))"
    "input_left ?s3 + 2 \<le> input_left ?s"
    by blast+
  have c1: "fst (GetTokPrecedence ?s) = 20"
    by (simp add: parser_eval lexer_eval)
  have c2: "map_option (\<lambda>(r, s3). (r, CurTok s3)) (ParsePrimary ?s2)
              = Some (Some (NumberExprAST 2), 42)"
    by (simp add: parser_eval lexer_eval)
  from c1 c2 d show ?thesis by blast
qed

subsection \<open>What the lexer leaves alone\<close>

text \<open>The lexer leaves the parser's variables and standard error alone.\<close>

definition parser_vars :: "state \<Rightarrow> int \<times> (char \<rightharpoonup> int) \<times> string list" where
  "parser_vars s = (CurTok s, BinopPrecedence s, stderr s)"

lemma parser_vars_update [simp]:
  "parser_vars (s\<lparr>stdin := i\<rparr>) = parser_vars s"
  "parser_vars (s\<lparr>LastChar := c\<rparr>) = parser_vars s"
  "parser_vars (s\<lparr>IdentifierStr := n\<rparr>) = parser_vars s"
  "parser_vars (s\<lparr>NumVal := v\<rparr>) = parser_vars s"
  by (simp_all add: parser_vars_def)

lemma getchar_vars: "getchar s = (c, s') \<Longrightarrow> parser_vars s' = parser_vars s"
  by (auto simp: getchar_def split: list.splits)

lemma gettok_skip_space_vars: "parser_vars (gettok_skip_space s) = parser_vars s"
proof (induction s rule: gettok_skip_space.induct)
  case (1 s)
  show ?case
  proof (cases "isspace (LastChar s)")
    case True
    obtain c s' where g: "getchar s = (c, s')" by (cases "getchar s")
    from "1.IH" [OF True g [symmetric]] getchar_vars [OF g] True g
    show ?thesis by (simp add: gettok_skip_space.simps [of s])
  next
    case False
    then show ?thesis by (simp add: gettok_skip_space.simps [of s])
  qed
qed

lemma gettok_identifier_vars: "parser_vars (gettok_identifier s) = parser_vars s"
proof (induction s rule: gettok_identifier.induct)
  case (1 s)
  obtain c s' where g: "getchar s = (c, s')" by (cases "getchar s")
  show ?case
  proof (cases "isalnum c")
    case True
    from "1.IH" [OF g [symmetric] True] getchar_vars [OF g] True g
    show ?thesis by (simp add: gettok_identifier.simps [of s])
  next
    case False
    with getchar_vars [OF g] g show ?thesis by (simp add: gettok_identifier.simps [of s])
  qed
qed

lemma gettok_number_vars: "parser_vars (snd (gettok_number NumStr s)) = parser_vars s"
proof (induction NumStr s rule: gettok_number.induct)
  case (1 NumStr s)
  obtain c s' where g: "getchar s = (c, s')" by (cases "getchar s")
  show ?case
  proof (cases "isdigit c \<or> c = 46")
    case True
    from "1.IH" [OF g [symmetric] True] getchar_vars [OF g] True g
    show ?thesis by (simp add: gettok_number.simps [of NumStr s])
  next
    case False
    with getchar_vars [OF g] g show ?thesis by (simp add: gettok_number.simps [of NumStr s])
  qed
qed

lemma gettok_comment_vars: "parser_vars (gettok_comment s) = parser_vars s"
proof (induction s rule: gettok_comment.induct)
  case (1 s)
  obtain c s' where g: "getchar s = (c, s')" by (cases "getchar s")
  show ?case
  proof (cases "c \<noteq> EOF \<and> c \<noteq> 10 \<and> c \<noteq> 13")
    case True
    from "1.IH" [OF g [symmetric] True] getchar_vars [OF g] True g
    show ?thesis by (simp add: gettok_comment.simps [of s])
  next
    case False
    with getchar_vars [OF g] g show ?thesis by (auto simp: gettok_comment.simps [of s])
  qed
qed

lemma gettok_vars: "gettok s0 = Some (tok, s') \<Longrightarrow> parser_vars s' = parser_vars s0"
proof (induction s0 rule: gettok.induct)
  case (1 s0)
  define s where "s = gettok_skip_space s0"
  have v: "parser_vars s = parser_vars s0" unfolding s_def by (rule gettok_skip_space_vars)
  note eq = "1.prems" [unfolded gettok.simps [of s0], folded s_def]
  consider (ident) "isalpha (LastChar s)"
    | (num) "\<not> isalpha (LastChar s)" "isdigit (LastChar s) \<or> LastChar s = 46"
    | (comment) "\<not> isalpha (LastChar s)" "\<not> (isdigit (LastChar s) \<or> LastChar s = 46)"
        "LastChar s = 35"
    | (other) "\<not> isalpha (LastChar s)" "\<not> (isdigit (LastChar s) \<or> LastChar s = 46)"
        "LastChar s \<noteq> 35"
    by blast
  then show ?case
  proof cases
    case ident
    with eq have "s' = gettok_identifier (s\<lparr>IdentifierStr := [char_of (LastChar s)]\<rparr>)"
      by (auto split: if_splits)
    with v show ?thesis by (simp add: gettok_identifier_vars)
  next
    case num
    with eq obtain v' where "s' = (snd (gettok_number [] s))\<lparr>NumVal := v'\<rparr>"
      by (auto split: prod.splits option.splits)
    with v show ?thesis by (simp add: gettok_number_vars)
  next
    case comment
    show ?thesis
    proof (cases "LastChar (gettok_comment s) \<noteq> EOF")
      case True
      with eq comment have g: "gettok (gettok_comment s) = Some (tok, s')" by simp
      from "1.IH" [folded s_def, OF comment(1) comment(2) comment(3) True g] v
      show ?thesis by (simp add: gettok_comment_vars)
    next
      case False
      with eq comment have "s' = gettok_comment s" by simp
      with v show ?thesis by (simp add: gettok_comment_vars)
    qed
  next
    case other
    show ?thesis
    proof (cases "LastChar s = EOF")
      case True
      with eq other v show ?thesis by simp
    next
      case False
      obtain c s1 where g: "getchar s = (c, s1)" by (cases "getchar s")
      with eq other False have "s' = s1\<lparr>LastChar := c\<rparr>" by simp
      with getchar_vars [OF g] v show ?thesis by simp
    qed
  qed
qed

lemma getNextToken_frame:
  "getNextToken s = Some s' \<Longrightarrow>
   stderr s' = stderr s \<and> BinopPrecedence s' = BinopPrecedence s"
  by (auto simp: getNextToken_def parser_vars_def split: option.splits dest!: gettok_vars)


subsection \<open>Failures and their propagation\<close>

text \<open>
  A parsing function that returns with a node has written nothing to standard error;
  one that returns without a node has written one line, the last one.
\<close>

definition node_or_error :: "state \<Rightarrow> 'a option \<Rightarrow> state \<Rightarrow> bool" where
  "node_or_error s r s' \<longleftrightarrow>
     (case r of
        Some node \<Rightarrow> stderr s' = stderr s
      | None \<Rightarrow> stderr s' = stderr s @ [last (stderr s')])"

lemma node_or_error_Some [simp]: "node_or_error s (Some n) s' \<longleftrightarrow> stderr s' = stderr s"
  by (simp add: node_or_error_def)

lemma node_or_error_None_cong:
  "node_or_error s (None :: 'a option) s' \<Longrightarrow> node_or_error s (None :: 'b option) s'"
  by (simp add: node_or_error_def)


lemma node_or_error_post: "stderr s2 = stderr s' \<Longrightarrow> node_or_error s r s' \<Longrightarrow> node_or_error s r s2"
  by (simp add: node_or_error_def split: option.splits)













text \<open>
  C7. \<open>ParseTopLevelExpr\<close> returns a function exactly when \<open>ParseExpression\<close> returns an
  expression; the function's prototype has the empty name and no parameters, and its
  body is that expression. On the input \<open>1+1\<close> it is the anonymous function of body
  \<open>1+1\<close>.
\<close>

theorem ParseTopLevelExpr_anonymous:
  "(ParseTopLevelExpr s = Some (Some F, s') \<longleftrightarrow>
      (\<exists>E. ParseExpression s = Some (Some E, s') \<and> F = FunctionAST (PrototypeAST [] []) E)) \<and>
   getName (PrototypeAST [] []) = [] \<and>
   run_parser ParseTopLevelExpr ''1+1''
     = Some (Some (FunctionAST (PrototypeAST [] [])
          (BinaryExprAST CHR ''+'' (NumberExprAST 1) (NumberExprAST 1))), [])"
proof (intro conjI)
  show "ParseTopLevelExpr s = Some (Some F, s') \<longleftrightarrow>
      (\<exists>E. ParseExpression s = Some (Some E, s') \<and> F = FunctionAST (PrototypeAST [] []) E)"
    by (auto simp: ParseTopLevelExpr_def split: option.splits)
  show "run_parser ParseTopLevelExpr ''1+1''
     = Some (Some (FunctionAST (PrototypeAST [] [])
          (BinaryExprAST CHR ''+'' (NumberExprAST 1) (NumberExprAST 1))), [])"
    by (simp add: parser_eval lexer_eval)
qed simp

subsection \<open>Precedence and calls\<close>

theorem ParseTopLevelExpr_anonymous_witness:
  "map_option fst (ParseExpression (the (getNextToken (initial_state ''1+1''))))
     = Some (Some (BinaryExprAST CHR ''+'' (NumberExprAST 1) (NumberExprAST 1))) \<and>
   map_option fst (ParseTopLevelExpr (the (getNextToken (initial_state ''1+1''))))
     = Some (Some (FunctionAST (PrototypeAST [] [])
          (BinaryExprAST CHR ''+'' (NumberExprAST 1) (NumberExprAST 1))))"
proof -
  let ?s = "the (getNextToken (initial_state ''1+1''))"
  let ?E = "BinaryExprAST CHR ''+'' (NumberExprAST 1) (NumberExprAST 1)"
  have e: "ParseExpression ?s = Some (Some ?E, snd (the (ParseExpression ?s)))"
    by (simp add: parser_eval lexer_eval)
  then have "map_option fst (ParseExpression ?s) = Some (Some ?E)"
    by (metis fst_conv option.simps(9))
  moreover from ParseTopLevelExpr_anonymous [of ?s "FunctionAST (PrototypeAST [] []) ?E"
      "snd (the (ParseExpression ?s))"] e
  have "ParseTopLevelExpr ?s
    = Some (Some (FunctionAST (PrototypeAST [] []) ?E), snd (the (ParseExpression ?s)))"
    by blast
  then have "map_option fst (ParseTopLevelExpr ?s)
    = Some (Some (FunctionAST (PrototypeAST [] []) ?E))"
    by (metis fst_conv option.simps(9))
  ultimately show ?thesis by blast
qed

text \<open>The precedence \<open>GetTokPrecedence\<close> gives a character under the initial table.\<close>

definition binop_precedence :: "char \<Rightarrow> int" where
  "binop_precedence c = fst (GetTokPrecedence ((initial_state [])\<lparr>CurTok := of_char c\<rparr>))"

lemma binop_precedence_eval:
  "binop_precedence CHR ''<'' = 10" "binop_precedence CHR ''+'' = 20"
  "binop_precedence CHR ''-'' = 20" "binop_precedence CHR ''*'' = 40"
  "binop_precedence CHR ''/'' = 40"
  by (simp_all add: binop_precedence_def parser_eval lexer_eval)

text \<open>
  The grouping of an expression is stated against the operators and primaries in the
  order of the input. \<open>binop_sequence\<close> is not a function of the program: it reads what
  follows a primary flatly, with the calls of \<open>GetTokPrecedence\<close>, \<open>getNextToken\<close> and
  \<open>ParsePrimary\<close> that the loop of \<open>ParseBinOpRHS\<close> makes, as operator, primary,
  operator, primary, up to the first token whose precedence is below \<open>ExprPrec\<close>, and
  builds no tree. With \<open>ExprPrec = 0\<close> it stops at the first token that is no operator.
  There is no list when a primary fails, and no result when \<open>std::stod\<close> throws.
\<close>

function binop_sequence :: "int \<Rightarrow> state \<Rightarrow> ((char \<times> ExprAST) list option \<times> state) option" where
  "binop_sequence ExprPrec s =
     (case GetTokPrecedence s of
        (TokPrec, s1) \<Rightarrow>
          if TokPrec < ExprPrec then Some (Some [], s1)
          else
            (case getNextToken s1 of
               None \<Rightarrow> None
             | Some s2 \<Rightarrow>
                 (case ParsePrimary s2 of
                    None \<Rightarrow> None
                  | Some (None, s3) \<Rightarrow> Some (None, s3)
                  | Some (Some RHS, s3) \<Rightarrow>
                      (case binop_sequence ExprPrec s3 of
                         None \<Rightarrow> None
                       | Some (None, s4) \<Rightarrow> Some (None, s4)
                       | Some (Some ops, s4) \<Rightarrow>
                           Some (Some ((char_of (CurTok s1), RHS) # ops), s4)))))"
  by pat_completeness auto
termination
proof (relation "measure (\<lambda>(ExprPrec, s). input_left s)")
  show "wf (measure (\<lambda>(ExprPrec, s). input_left s))" by simp
next
  fix ExprPrec :: int and s TokPrec s1 s2 r3 r s3 RHS
  assume g: "(TokPrec, s1) = GetTokPrecedence s" and n: "getNextToken s1 = Some s2"
    and p: "ParsePrimary s2 = Some r3" and r: "(r, s3) = r3" "r = Some RHS"
  from p r have p': "ParsePrimary s2 = Some (Some RHS, s3)" by simp
  from GetTokPrecedence_left [OF g [symmetric]] getNextToken_left [OF n] ParsePrimary_left [OF p']
  show "((ExprPrec, s3), ExprPrec, s) \<in> measure (\<lambda>(ExprPrec, s). input_left s)"
    by simp
qed

declare binop_sequence.simps [simp del]

text \<open>
  A tree of binary operators over primaries: the expression it stands for, its first
  operand, and its operators from left to right, each with the operand to its right.
\<close>

datatype operator_tree = Operand ExprAST | Operator char operator_tree operator_tree

fun expr_of :: "operator_tree \<Rightarrow> ExprAST" where
  "expr_of (Operand E) = E"
| "expr_of (Operator c l r) = BinaryExprAST c (expr_of l) (expr_of r)"

fun first_operand :: "operator_tree \<Rightarrow> ExprAST" where
  "first_operand (Operand E) = E"
| "first_operand (Operator c l r) = first_operand l"

fun operators :: "operator_tree \<Rightarrow> (char \<times> ExprAST) list" where
  "operators (Operand E) = []"
| "operators (Operator c l r) = operators l @ (c, first_operand r) # operators r"

text \<open>
  The grouping by precedence, left-associative: the left operand of an operator holds
  only operators that bind at least as tightly, its right operand only operators that
  bind strictly tighter.
\<close>

fun climbed :: "operator_tree \<Rightarrow> bool" where
  "climbed (Operand E) = True"
| "climbed (Operator c l r) =
     (climbed l \<and> climbed r \<and>
      list_all (\<lambda>op. binop_precedence c \<le> binop_precedence (fst op)) (operators l) \<and>
      list_all (\<lambda>op. binop_precedence c < binop_precedence (fst op)) (operators r))"

text \<open>
  \<open>prepend\<close> puts operators in front of a sequence that was read. \<open>climbs l b r\<close>
  compares the result \<open>r\<close> of \<open>ParseBinOpRHS\<close>, called with the tree \<open>l\<close> as its left-hand
  side, with the sequence \<open>b\<close> read from the same state: both fail alike, and for the
  sequence \<open>ops\<close> the result is a tree grouped by precedence that extends \<open>l\<close> by \<open>ops\<close>.
\<close>

fun prepend ::
  "(char \<times> ExprAST) list \<Rightarrow> ((char \<times> ExprAST) list option \<times> state) option \<Rightarrow>
   ((char \<times> ExprAST) list option \<times> state) option"
where
  "prepend ops None = None"
| "prepend ops (Some (None, s)) = Some (None, s)"
| "prepend ops (Some (Some ops', s)) = Some (Some (ops @ ops'), s)"

fun climbs ::
  "operator_tree \<Rightarrow> ((char \<times> ExprAST) list option \<times> state) option \<Rightarrow>
   (ExprAST option \<times> state) option \<Rightarrow> bool"
where
  "climbs l None r = (r = None)"
| "climbs l (Some (None, s')) r = (r = Some (None, s'))"
| "climbs l (Some (Some ops, s')) r =
     (\<exists>t. r = Some (Some (expr_of t), s') \<and> climbed t \<and> first_operand t = first_operand l \<and>
          operators t = operators l @ ops)"

text \<open>The parsing functions keep the declared table.\<close>

lemma GetTokPrecedence_idem:
  "GetTokPrecedence s = (p, s1) \<Longrightarrow> GetTokPrecedence s1 = (p, s1)"
  by (auto simp: GetTokPrecedence_def map_subscript_def split: if_splits option.splits)

lemma getNextToken_declared:
  "getNextToken s = Some s' \<Longrightarrow> declared_binops (BinopPrecedence s) \<Longrightarrow>
   declared_binops (BinopPrecedence s')"
  by (simp add: getNextToken_frame)

lemma GetTokPrecedence_declared_step:
  "GetTokPrecedence s = (p, s') \<Longrightarrow> declared_binops (BinopPrecedence s) \<Longrightarrow>
   declared_binops (BinopPrecedence s')"
  using GetTokPrecedence_declared [of s] by simp

lemma parser_declared:
  shows "\<forall>r s'. ParseParenExpr a = Some (r, s') \<longrightarrow> declared_binops (BinopPrecedence a) \<longrightarrow>
           declared_binops (BinopPrecedence s')"
    and "\<forall>r s'. ParseIdentifierExpr b = Some (r, s') \<longrightarrow> declared_binops (BinopPrecedence b) \<longrightarrow>
           declared_binops (BinopPrecedence s')"
    and "\<forall>r s'. ParseIdentifierExpr_args Args c = Some (r, s') \<longrightarrow>
           declared_binops (BinopPrecedence c) \<longrightarrow> declared_binops (BinopPrecedence s')"
    and "\<forall>r s'. ParsePrimary d = Some (r, s') \<longrightarrow> declared_binops (BinopPrecedence d) \<longrightarrow>
           declared_binops (BinopPrecedence s')"
    and "\<forall>r s'. ParseExpression e = Some (r, s') \<longrightarrow> declared_binops (BinopPrecedence e) \<longrightarrow>
           declared_binops (BinopPrecedence s')"
    and "\<forall>r s'. ParseBinOpRHS ExprPrec LHS f = Some (r, s') \<longrightarrow>
           declared_binops (BinopPrecedence f) \<longrightarrow> declared_binops (BinopPrecedence s')"
proof (induct rule: ParseParenExpr_ParseIdentifierExpr_ParseIdentifierExpr_args_ParsePrimary_ParseExpression_ParseBinOpRHS.induct)
  case (1 s)
  note ps = ParseParenExpr.simps [of s]
  show ?case
  proof (intro allI impI)
    fix r s'
    assume eq: "ParseParenExpr s = Some (r, s')" and d: "declared_binops (BinopPrecedence s)"
    from eq obtain s1 where n1: "getNextToken s = Some s1"
      by (auto simp: ps split: option.splits)
    from eq n1 obtain r1 s2 where e1: "ParseExpression s1 = Some (r1, s2)"
      by (auto simp: ps split: option.splits)
    from "1.hyps" [OF n1] e1 getNextToken_declared [OF n1 d]
    have d2: "declared_binops (BinopPrecedence s2)" by blast
    from eq n1 e1 have "BinopPrecedence s' = BinopPrecedence s2"
      by (auto simp: ps LogError_def split: option.splits if_splits dest!: getNextToken_frame)
    with d2 show "declared_binops (BinopPrecedence s')" by simp
  qed
next
  case (2 s)
  note ps = ParseIdentifierExpr.simps [of s]
  show ?case
  proof (intro allI impI)
    fix r s'
    assume eq: "ParseIdentifierExpr s = Some (r, s')" and d: "declared_binops (BinopPrecedence s)"
    from eq obtain s1 where n1: "getNextToken s = Some s1"
      by (auto simp: ps split: option.splits)
    note d1 = getNextToken_declared [OF n1 d]
    show "declared_binops (BinopPrecedence s')"
    proof (cases "CurTok s1 \<noteq> 40")
      case True
      with eq n1 d1 show ?thesis by (auto simp: ps)
    next
      case False
      with eq n1 obtain s2 where n2: "getNextToken s1 = Some s2"
        by (auto simp: ps split: option.splits)
      note d2 = getNextToken_declared [OF n2 d1]
      show ?thesis
      proof (cases "CurTok s2 \<noteq> 41")
        case True
        with eq n1 n2 False obtain ra s3 where
          a: "ParseIdentifierExpr_args [] s2 = Some (ra, s3)"
          by (auto simp: ps split: option.splits)
        from "2.hyps" [OF n1 False n2 True] a d2
        have d3: "declared_binops (BinopPrecedence s3)" by blast
        from eq n1 n2 False True a have "BinopPrecedence s' = BinopPrecedence s3"
          by (auto simp: ps split: option.splits dest!: getNextToken_frame)
        with d3 show ?thesis by simp
      next
        case F2: False
        with eq n1 n2 False have "BinopPrecedence s' = BinopPrecedence s2"
          by (auto simp: ps split: option.splits dest!: getNextToken_frame)
        with d2 show ?thesis by simp
      qed
    qed
  qed
next
  case (3 Args s)
  note ps = ParseIdentifierExpr_args.simps [of Args s]
  show ?case
  proof (intro allI impI)
    fix r s'
    assume eq: "ParseIdentifierExpr_args Args s = Some (r, s')"
      and d: "declared_binops (BinopPrecedence s)"
    from eq obtain r1 s1 where e1: "ParseExpression s = Some (r1, s1)"
      by (auto simp: ps split: option.splits)
    from "3.hyps"(1) e1 d have d1: "declared_binops (BinopPrecedence s1)" by blast
    show "declared_binops (BinopPrecedence s')"
    proof (cases r1)
      case None
      with eq e1 d1 show ?thesis by (auto simp: ps)
    next
      case (Some A)
      show ?thesis
      proof (cases "CurTok s1 = 41 \<or> CurTok s1 \<noteq> 44")
        case True
        with eq e1 Some d1 show ?thesis
          by (auto simp: ps LogError_def split: if_splits)
      next
        case False
        with eq e1 Some obtain s2 where n2: "getNextToken s1 = Some s2"
          by (auto simp: ps split: option.splits)
        from False eq e1 Some n2
        have r: "ParseIdentifierExpr_args (Args @ [A]) s2 = Some (r, s')"
          by (auto simp: ps)
        from False have c: "CurTok s1 \<noteq> 41" "\<not> CurTok s1 \<noteq> 44" by auto
        from "3.hyps"(2) [OF e1 refl Some c n2] r getNextToken_declared [OF n2 d1]
        show ?thesis by blast
      qed
    qed
  qed
next
  case (4 s)
  note ps = ParsePrimary.simps [of s]
  show ?case
  proof (intro allI impI)
    fix r s'
    assume eq: "ParsePrimary s = Some (r, s')" and d: "declared_binops (BinopPrecedence s)"
    consider (ident) "CurTok s = tok_identifier"
      | (num) "CurTok s \<noteq> tok_identifier" "CurTok s = tok_number"
      | (paren) "CurTok s \<noteq> tok_identifier" "CurTok s \<noteq> tok_number" "CurTok s = 40"
      | (other) "CurTok s \<noteq> tok_identifier" "CurTok s \<noteq> tok_number" "CurTok s \<noteq> 40"
      by blast
    then show "declared_binops (BinopPrecedence s')"
    proof cases
      case ident
      with eq have "ParseIdentifierExpr s = Some (r, s')" by (simp add: ps)
      with "4.hyps"(1) [OF ident] d show ?thesis by blast
    next
      case num
      with eq have "ParseNumberExpr s = Some (r, s')" by (simp add: ps)
      with d show ?thesis
        by (auto simp: ParseNumberExpr_def split: option.splits dest!: getNextToken_frame)
    next
      case paren
      with eq have "ParseParenExpr s = Some (r, s')" by (simp add: ps)
      with "4.hyps"(2) [OF paren(1) paren(2) paren(3)] d show ?thesis by blast
    next
      case other
      with eq d show ?thesis by (auto simp: ps LogError_def)
    qed
  qed
next
  case (5 s)
  note ps = ParseExpression.simps [of s]
  show ?case
  proof (intro allI impI)
    fix r s'
    assume eq: "ParseExpression s = Some (r, s')" and d: "declared_binops (BinopPrecedence s)"
    from eq obtain r1 s1 where e1: "ParsePrimary s = Some (r1, s1)"
      by (auto simp: ps split: option.splits)
    from "5.hyps"(1) e1 d have d1: "declared_binops (BinopPrecedence s1)" by blast
    show "declared_binops (BinopPrecedence s')"
    proof (cases r1)
      case None
      with eq e1 d1 show ?thesis by (auto simp: ps)
    next
      case (Some L)
      with eq e1 have b: "ParseBinOpRHS 0 L s1 = Some (r, s')" by (simp add: ps)
      from "5.hyps"(2) [OF e1 refl Some] b d1 show ?thesis by blast
    qed
  qed
next
  case (6 ExprPrec LHS s)
  note ps = ParseBinOpRHS.simps [of ExprPrec LHS s]
  show ?case
  proof (intro allI impI)
    fix r s'
    assume eq: "ParseBinOpRHS ExprPrec LHS s = Some (r, s')"
      and d: "declared_binops (BinopPrecedence s)"
    obtain TokPrec s1 where g: "GetTokPrecedence s = (TokPrec, s1)"
      by (cases "GetTokPrecedence s")
    note d1 = GetTokPrecedence_declared_step [OF g d]
    show "declared_binops (BinopPrecedence s')"
    proof (cases "TokPrec < ExprPrec")
      case True
      with eq g d1 show ?thesis by (simp add: ps)
    next
      case False
      with eq g obtain s2 where n: "getNextToken s1 = Some s2"
        by (auto simp: ps split: option.splits)
      note d2 = getNextToken_declared [OF n d1]
      from eq g False n obtain r3 s3 where p: "ParsePrimary s2 = Some (r3, s3)"
        by (auto simp: ps split: option.splits)
      from "6.hyps"(1) [OF g [symmetric] False n] p d2
      have d3: "declared_binops (BinopPrecedence s3)" by blast
      show ?thesis
      proof (cases r3)
        case None
        with eq g False n p d3 show ?thesis by (simp add: ps)
      next
        case (Some RHS)
        obtain NextPrec s4 where g3: "GetTokPrecedence s3 = (NextPrec, s4)"
          by (cases "GetTokPrecedence s3")
        note d4 = GetTokPrecedence_declared_step [OF g3 d3]
        show ?thesis
        proof (cases "TokPrec < NextPrec")
          case T: True
          with eq g False n p Some g3 obtain r5 s5 where
            i: "ParseBinOpRHS (TokPrec + 1) RHS s4 = Some (r5, s5)"
            by (auto simp: ps split: option.splits)
          from "6.hyps"(2) [OF g [symmetric] False n p refl Some g3 [symmetric] T] i d4
          have d5: "declared_binops (BinopPrecedence s5)" by blast
          show ?thesis
          proof (cases r5)
            case None
            with eq g False n p Some g3 T i d5 show ?thesis by (simp add: ps)
          next
            case S: (Some RHS')
            with eq g False n p Some g3 T i
            have c: "ParseBinOpRHS ExprPrec (BinaryExprAST (char_of (CurTok s1)) LHS RHS') s5
              = Some (r, s')"
              by (simp add: ps)
            from "6.hyps"(3) [OF g [symmetric] False n p refl Some g3 [symmetric] T i refl S] c d5
            show ?thesis by blast
          qed
        next
          case F: False
          with eq g False n p Some g3
          have c: "ParseBinOpRHS ExprPrec (BinaryExprAST (char_of (CurTok s1)) LHS RHS) s4
            = Some (r, s')"
            by (simp add: ps)
          from "6.hyps"(4) [OF g [symmetric] False n p refl Some g3 [symmetric] F] c d4
          show ?thesis by blast
        qed
      qed
    qed
  qed
qed

lemma climbed_unique:
  "climbed t \<Longrightarrow> climbed t' \<Longrightarrow> first_operand t = first_operand t' \<Longrightarrow>
   operators t = operators t' \<Longrightarrow> t = t'"
proof (induction t arbitrary: t')
  case (Operand E)
  then show ?case by (cases t') simp_all
next
  case (Operator c l r)
  from Operator.prems(4) obtain c' l' r' where t': "t' = Operator c' l' r'"
    by (cases t') simp_all
  let ?x = "(c, first_operand r)" and ?x' = "(c', first_operand r')"
  from Operator.prems(4) t'
  have eq: "operators l @ ?x # operators r = operators l' @ ?x' # operators r'" by simp
  from Operator.prems(1) have a: "\<And>op. op \<in> set (operators l) \<Longrightarrow>
      binop_precedence c \<le> binop_precedence (fst op)"
    and b: "\<And>op. op \<in> set (operators r) \<Longrightarrow> binop_precedence c < binop_precedence (fst op)"
    by (simp_all add: list_all_iff)
  from Operator.prems(2) t' have a': "\<And>op. op \<in> set (operators l') \<Longrightarrow>
      binop_precedence c' \<le> binop_precedence (fst op)"
    and b': "\<And>op. op \<in> set (operators r') \<Longrightarrow> binop_precedence c' < binop_precedence (fst op)"
    by (simp_all add: list_all_iff)
  from eq obtain us where
    "(operators l = operators l' @ us \<and> us @ ?x # operators r = ?x' # operators r') \<or>
     (operators l @ us = operators l' \<and> ?x # operators r = us @ ?x' # operators r')"
    unfolding append_eq_append_conv2 by blast
  then have us: "us = []"
  proof
    assume h: "operators l = operators l' @ us \<and> us @ ?x # operators r = ?x' # operators r'"
    show ?thesis
    proof (cases us)
      case (Cons u us')
      with h have "operators r' = us' @ ?x # operators r" by simp
      then have "?x \<in> set (operators r')" by simp
      moreover from Cons h have "?x' \<in> set (operators l)" by simp
      ultimately have "?x' \<in> set (operators l)" "?x \<in> set (operators r')" by simp_all
      from a [OF this(1)] b' [OF this(2)] show ?thesis by simp
    qed simp
  next
    assume h: "operators l @ us = operators l' \<and> ?x # operators r = us @ ?x' # operators r'"
    show ?thesis
    proof (cases us)
      case (Cons u us')
      with h have "operators l' = operators l @ ?x # us'" "operators r = us' @ ?x' # operators r'"
        by simp_all
      then have "?x \<in> set (operators l')" "?x' \<in> set (operators r)" by simp_all
      from a' [OF this(1)] b [OF this(2)] show ?thesis by simp
    qed simp
  qed
  with eq \<open>(operators l = operators l' @ us \<and> us @ ?x # operators r = ?x' # operators r') \<or>
     (operators l @ us = operators l' \<and> ?x # operators r = us @ ?x' # operators r')\<close>
  have e: "operators l = operators l'" "c = c'" "first_operand r = first_operand r'"
    "operators r = operators r'"
    by auto
  from Operator.prems t' have "climbed l" "climbed l'" "climbed r" "climbed r'"
    "first_operand l = first_operand l'"
    by simp_all
  with Operator.IH e have "l = l'" "r = r'" by blast+
  with e t' show ?case by simp
qed

lemma binop_precedence_CurTok:
  assumes "declared_binops (BinopPrecedence s)" and "0 \<le> fst (GetTokPrecedence s)"
  shows "binop_precedence (char_of (CurTok s)) = fst (GetTokPrecedence s)"
proof -
  note v = GetTokPrecedence_value [OF assms(1)]
  from assms(2) v consider "CurTok s = 60" | "CurTok s = 43" | "CurTok s = 45" | "CurTok s = 42"
    | "CurTok s = 47"
    by (auto split: if_splits)
  then show ?thesis
    by cases (simp_all add: v binop_precedence_eval char_of_def)
qed

lemma prepend_Nil [simp]: "prepend [] b = b"
  by (cases "([] :: (char \<times> ExprAST) list, b)" rule: prepend.cases) simp_all

lemma prepend_prepend [simp]: "prepend a (prepend b x) = prepend (a @ b) x"
  by (cases "(b, x)" rule: prepend.cases) simp_all

lemma binop_sequence_stop:
  "GetTokPrecedence s = (TokPrec, s1) \<Longrightarrow> TokPrec < e \<Longrightarrow>
   binop_sequence e s = Some (Some [], s1)"
  by (simp add: binop_sequence.simps [of e s])

lemma binop_sequence_step:
  assumes "GetTokPrecedence s = (TokPrec, s1)" and "\<not> TokPrec < e"
    and "getNextToken s1 = Some s2" and "ParsePrimary s2 = Some (Some RHS, s3)"
  shows "binop_sequence e s = prepend [(char_of (CurTok s1), RHS)] (binop_sequence e s3)"
proof (cases "(([] :: (char \<times> ExprAST) list), binop_sequence e s3)" rule: prepend.cases)
  case (1 ops)
  with assms show ?thesis by (simp add: binop_sequence.simps [of e s])
next
  case (2 ops s')
  with assms show ?thesis by (simp add: binop_sequence.simps [of e s])
next
  case (3 ops ops' s')
  with assms show ?thesis by (simp add: binop_sequence.simps [of e s])
qed

lemma binop_sequence_idem:
  "GetTokPrecedence s = (p, s1) \<Longrightarrow> binop_sequence e s1 = binop_sequence e s"
  by (simp add: binop_sequence.simps [of e s] binop_sequence.simps [of e s1]
      GetTokPrecedence_idem)

lemma ParsePrimary_declared:
  "ParsePrimary s = Some (r, s') \<Longrightarrow> declared_binops (BinopPrecedence s) \<Longrightarrow>
   declared_binops (BinopPrecedence s')"
  using parser_declared(4) [of s] by blast

lemma binop_sequence_ops:
  assumes "declared_binops (BinopPrecedence s)" and "0 \<le> e"
    and "binop_sequence e s = Some (Some ops, s')"
  shows "list_all (\<lambda>op. e \<le> binop_precedence (fst op)) ops \<and>
         declared_binops (BinopPrecedence s') \<and>
         GetTokPrecedence s' = (fst (GetTokPrecedence s'), s') \<and>
         fst (GetTokPrecedence s') < e"
  using assms
proof (induction "input_left s" arbitrary: s ops rule: less_induct)
  case less
  obtain TokPrec s1 where g: "GetTokPrecedence s = (TokPrec, s1)"
    by (cases "GetTokPrecedence s")
  note d1 = GetTokPrecedence_declared_step [OF g less.prems(1)]
  show ?case
  proof (cases "TokPrec < e")
    case True
    from binop_sequence_stop [OF g True] less.prems(3) have "ops = []" "s' = s1" by simp_all
    with d1 True GetTokPrecedence_idem [OF g] show ?thesis by simp
  next
    case False
    with less.prems(2) have tp: "0 \<le> TokPrec" by simp
    note bs = binop_sequence.simps [of e s]
    from less.prems(3) g False obtain s2 where n: "getNextToken s1 = Some s2"
      by (auto simp: bs split: option.splits)
    from less.prems(3) g False n obtain RHS s3 where p: "ParsePrimary s2 = Some (Some RHS, s3)"
      by (auto simp: bs split: option.splits)
    from less.prems(3) binop_sequence_step [OF g False n p]
    obtain ops' where r: "binop_sequence e s3 = Some (Some ops', s')"
      and o: "ops = (char_of (CurTok s1), RHS) # ops'"
      by (cases "(([] :: (char \<times> ExprAST) list), binop_sequence e s3)" rule: prepend.cases) auto
    note d3 = ParsePrimary_declared [OF p getNextToken_declared [OF n d1]]
    from GetTokPrecedence_left [OF g] getNextToken_left [OF n] ParsePrimary_left [OF p]
    have "input_left s3 < input_left s" by simp
    from less.hyps [OF this d3 less.prems(2) r]
    have ih: "list_all (\<lambda>op. e \<le> binop_precedence (fst op)) ops'"
      "declared_binops (BinopPrecedence s')"
      "GetTokPrecedence s' = (fst (GetTokPrecedence s'), s')"
      "fst (GetTokPrecedence s') < e"
      by simp_all
    from binop_precedence_CurTok [OF less.prems(1)] g tp GetTokPrecedence_left [OF g]
    have "binop_precedence (char_of (CurTok s1)) = TokPrec" by simp
    with False o ih show ?thesis by simp
  qed
qed

lemma binop_sequence_split:
  assumes "e \<le> e'"
  shows "(binop_sequence e' s = None \<longrightarrow> binop_sequence e s = None) \<and>
         (\<forall>s'. binop_sequence e' s = Some (None, s') \<longrightarrow> binop_sequence e s = Some (None, s')) \<and>
         (\<forall>ops s'. binop_sequence e' s = Some (Some ops, s') \<longrightarrow>
            binop_sequence e s = prepend ops (binop_sequence e s'))"
proof (induction "input_left s" arbitrary: s rule: less_induct)
  case less
  obtain TokPrec s1 where g: "GetTokPrecedence s = (TokPrec, s1)"
    by (cases "GetTokPrecedence s")
  show ?case
  proof (cases "TokPrec < e'")
    case True
    from binop_sequence_stop [OF g True] binop_sequence_idem [OF g, of e]
    show ?thesis by simp
  next
    case False
    with assms have F: "\<not> TokPrec < e" by simp
    note bs = binop_sequence.simps
    show ?thesis
    proof (cases "getNextToken s1")
      case None
      with g False F show ?thesis by (simp add: bs [of e s] bs [of e' s])
    next
      case (Some s2)
      show ?thesis
      proof (cases "ParsePrimary s2")
        case None
        with g False F Some show ?thesis by (simp add: bs [of e s] bs [of e' s])
      next
        case P: (Some a)
        obtain r3 s3 where a: "a = (r3, s3)" by (cases a)
        show ?thesis
        proof (cases r3)
          case None
          with g False F Some P a show ?thesis by (simp add: bs [of e s] bs [of e' s])
        next
          case R: (Some RHS)
          with P a have p: "ParsePrimary s2 = Some (Some RHS, s3)" by simp
          note s1 = binop_sequence_step [OF g False Some p]
            and s2 = binop_sequence_step [OF g F Some p]
          from GetTokPrecedence_left [OF g] getNextToken_left [OF Some] ParsePrimary_left [OF p]
          have "input_left s3 < input_left s" by simp
          note ih = less.hyps [OF this]
          show ?thesis
          proof (cases "(([] :: (char \<times> ExprAST) list), binop_sequence e' s3)" rule: prepend.cases)
            case (1 ops)
            with ih s1 s2 show ?thesis by simp
          next
            case (2 ops s')
            with ih s1 s2 show ?thesis by simp
          next
            case (3 ops ops' s')
            with ih s1 s2 show ?thesis by simp
          qed
        qed
      qed
    qed
  qed
qed

lemma climbs_step:
  "climbs (Operator c l r) b x \<Longrightarrow> climbs l (prepend ((c, first_operand r) # operators r) b) x"
  by (cases "(l, b, x)" rule: climbs.cases) auto

lemma ParseBinOpRHS_climbs:
  assumes "declared_binops (BinopPrecedence s)" and "0 \<le> e" and "climbed l"
    and "list_all (\<lambda>op. fst (GetTokPrecedence s) \<le> binop_precedence (fst op)) (operators l)"
  shows "climbs l (binop_sequence e s) (ParseBinOpRHS e (expr_of l) s)"
  using assms
proof (induction "input_left s" arbitrary: s e l rule: less_induct)
  case less
  obtain TokPrec s1 where g: "GetTokPrecedence s = (TokPrec, s1)"
    by (cases "GetTokPrecedence s")
  note d1 = GetTokPrecedence_declared_step [OF g less.prems(1)]
  note ps = ParseBinOpRHS.simps [of e "expr_of l" s] and bs = binop_sequence.simps [of e s]
  show ?case
  proof (cases "TokPrec < e")
    case True
    with g have "ParseBinOpRHS e (expr_of l) s = Some (Some (expr_of l), s1)" by (simp add: ps)
    with binop_sequence_stop [OF g True] less.prems(3) show ?thesis by auto
  next
    case False
    with less.prems(2) have tp: "0 \<le> TokPrec" by simp
    show ?thesis
    proof (cases "getNextToken s1")
      case None
      with g False show ?thesis by (simp add: ps bs)
    next
      case (Some s2)
      note d2 = getNextToken_declared [OF Some d1]
      show ?thesis
      proof (cases "ParsePrimary s2")
        case None
        with g False Some show ?thesis by (simp add: ps bs)
      next
        case P: (Some a)
        obtain r3 s3 where a: "a = (r3, s3)" by (cases a)
        show ?thesis
        proof (cases r3)
          case None
          with g False Some P a show ?thesis by (simp add: ps bs)
        next
          case R: (Some RHS)
          with P a have p: "ParsePrimary s2 = Some (Some RHS, s3)" by simp
          note d3 = ParsePrimary_declared [OF p d2]
          obtain NextPrec s4 where g3: "GetTokPrecedence s3 = (NextPrec, s4)"
            by (cases "GetTokPrecedence s3")
          note d4 = GetTokPrecedence_declared_step [OF g3 d3]
          note g4 = GetTokPrecedence_idem [OF g3]
          define c where "c = char_of (CurTok s1)"
          from binop_precedence_CurTok [OF less.prems(1)] g tp GetTokPrecedence_left [OF g]
          have pc: "binop_precedence c = TokPrec" by (simp add: c_def)
          from less.prems(4) g pc
          have ll: "list_all (\<lambda>op. binop_precedence c \<le> binop_precedence (fst op)) (operators l)"
            by simp
          from GetTokPrecedence_not_eof [OF g tp] GetTokPrecedence_left [OF g]
            getNextToken_left [OF Some] ParsePrimary_left [OF p] GetTokPrecedence_left [OF g3]
          have left: "input_left s4 < input_left s" by simp
          note step = binop_sequence_step [OF g False Some p, folded c_def]
          show ?thesis
          proof (cases "TokPrec < NextPrec")
            case F: False
            let ?l = "Operator c l (Operand RHS)"
            from g False Some p g3 F
            have ps': "ParseBinOpRHS e (expr_of l) s = ParseBinOpRHS e (expr_of ?l) s4"
              by (simp add: ps c_def)
            from less.prems(3) ll have c2: "climbed ?l" by simp
            from ll F pc g4
            have l2: "list_all (\<lambda>op. fst (GetTokPrecedence s4) \<le> binop_precedence (fst op))
              (operators ?l)"
              by (auto simp: list_all_iff)
            from less.hyps [OF left d4 less.prems(2) c2 l2]
            have "climbs ?l (binop_sequence e s4) (ParseBinOpRHS e (expr_of ?l) s4)" .
            from climbs_step [OF this] show ?thesis
              unfolding ps' step binop_sequence_idem [OF g3] by simp
          next
            case T: True
            from T tp have e1: "0 \<le> TokPrec + 1" by simp
            from g4 have l1: "list_all (\<lambda>op. fst (GetTokPrecedence s4) \<le> binop_precedence (fst op))
              (operators (Operand RHS))"
              by simp
            from less.hyps [OF left d4 e1 _ l1]
            have i: "climbs (Operand RHS) (binop_sequence (TokPrec + 1) s4)
              (ParseBinOpRHS (TokPrec + 1) RHS s4)"
              by simp
            from False have le: "e \<le> TokPrec + 1" by simp
            note split = binop_sequence_split [OF le, of s3]
            note ps1 = ps [unfolded g, simplified False Some p T g3, simplified]
            show ?thesis
            proof (cases "(([] :: (char \<times> ExprAST) list), binop_sequence (TokPrec + 1) s4)"
                rule: prepend.cases)
              case (1 ops)
              with i have "ParseBinOpRHS (TokPrec + 1) RHS s4 = None" by simp
              with g False Some p T g3 have "ParseBinOpRHS e (expr_of l) s = None"
                by (simp add: ps)
              moreover from 1 split binop_sequence_idem [OF g3, of "TokPrec + 1"]
              have "binop_sequence e s3 = None" by simp
              ultimately show ?thesis unfolding step by simp
            next
              case (2 ops s5)
              with i have "ParseBinOpRHS (TokPrec + 1) RHS s4 = Some (None, s5)" by simp
              with g False Some p T g3 have "ParseBinOpRHS e (expr_of l) s = Some (None, s5)"
                by (simp add: ps)
              moreover from 2 split binop_sequence_idem [OF g3, of "TokPrec + 1"]
              have "binop_sequence e s3 = Some (None, s5)" by simp
              ultimately show ?thesis unfolding step by simp
            next
              case (3 ops ops1 s5)
              then have b1: "binop_sequence (TokPrec + 1) s4 = Some (Some ops1, s5)" by simp
              with i obtain t1 where
                r1: "ParseBinOpRHS (TokPrec + 1) RHS s4 = Some (Some (expr_of t1), s5)"
                and t1: "climbed t1" "first_operand t1 = RHS" "operators t1 = ops1"
                by auto
              let ?l = "Operator c l t1"
              from g False Some p T g3 r1
              have ps': "ParseBinOpRHS e (expr_of l) s = ParseBinOpRHS e (expr_of ?l) s5"
                by (simp add: ps c_def)
              from b1 split binop_sequence_idem [OF g3, of "TokPrec + 1"]
              have sp: "binop_sequence e s3 = prepend ops1 (binop_sequence e s5)" by simp
              from binop_sequence_ops [OF d4 e1 b1]
              have o1: "list_all (\<lambda>op. TokPrec + 1 \<le> binop_precedence (fst op)) ops1"
                and d5: "declared_binops (BinopPrecedence s5)"
                and p5: "fst (GetTokPrecedence s5) < TokPrec + 1"
                by simp_all
              from o1 t1 pc
              have lr: "list_all (\<lambda>op. binop_precedence c < binop_precedence (fst op)) (operators t1)"
                by (auto simp: list_all_iff)
              from less.prems(3) ll t1 lr have c2: "climbed ?l" by simp
              from ll lr pc p5
              have l2: "list_all (\<lambda>op. fst (GetTokPrecedence s5) \<le> binop_precedence (fst op))
                (operators ?l)"
                by (auto simp: list_all_iff)
              from ParseBinOpRHS_left [OF r1] left have "input_left s5 < input_left s" by simp
              from less.hyps [OF this d5 less.prems(2) c2 l2]
              have "climbs ?l (binop_sequence e s5) (ParseBinOpRHS e (expr_of ?l) s5)" .
              from climbs_step [OF this] show ?thesis
                unfolding ps' step sp using t1 by simp
            qed
          qed
        qed
      qed
    qed
  qed
qed

lemma ParseExpression_climbs:
  assumes d: "declared_binops (BinopPrecedence s)"
    and p: "ParsePrimary s = Some (Some p, s1)"
  shows "climbs (Operand p) (binop_sequence 0 s1) (ParseExpression s)"
proof -
  from p have "ParseExpression s = ParseBinOpRHS 0 (expr_of (Operand p)) s1"
    by (simp add: ParseExpression.simps [of s])
  with ParseBinOpRHS_climbs [OF ParsePrimary_declared [OF p d], of 0 "Operand p"]
  show ?thesis by simp
qed

lemma ParseExpression_grouping:
  assumes d: "declared_binops (BinopPrecedence s)"
  shows "ParseExpression s = Some (Some E, s') \<longleftrightarrow>
     (\<exists>p s1 t. ParsePrimary s = Some (Some p, s1) \<and>
        binop_sequence 0 s1 = Some (Some (operators t), s') \<and>
        first_operand t = p \<and> climbed t \<and> expr_of t = E)"
proof
  assume e: "ParseExpression s = Some (Some E, s')"
  then obtain p s1 where p: "ParsePrimary s = Some (Some p, s1)"
    by (auto simp: ParseExpression.simps [of s] split: option.splits)
  from ParseExpression_climbs [OF d p] e
  have c: "climbs (Operand p) (binop_sequence 0 s1) (Some (Some E, s'))" by simp
  then obtain t where "binop_sequence 0 s1 = Some (Some (operators t), s')"
    "first_operand t = p" "climbed t" "expr_of t = E"
    by (cases "(Operand p, binop_sequence 0 s1, Some (Some E, s'))" rule: climbs.cases) auto
  with p show "\<exists>p s1 t. ParsePrimary s = Some (Some p, s1) \<and>
        binop_sequence 0 s1 = Some (Some (operators t), s') \<and>
        first_operand t = p \<and> climbed t \<and> expr_of t = E"
    by blast
next
  assume "\<exists>p s1 t. ParsePrimary s = Some (Some p, s1) \<and>
        binop_sequence 0 s1 = Some (Some (operators t), s') \<and>
        first_operand t = p \<and> climbed t \<and> expr_of t = E"
  then obtain p s1 t where p: "ParsePrimary s = Some (Some p, s1)"
    and b: "binop_sequence 0 s1 = Some (Some (operators t), s')"
    and t: "first_operand t = p" "climbed t" "expr_of t = E"
    by blast
  from ParseExpression_climbs [OF d p] b obtain t' where
    e: "ParseExpression s = Some (Some (expr_of t'), s')"
    and t': "climbed t'" "first_operand t' = p" "operators t' = operators t"
    by auto
  from climbed_unique [OF t'(1) t(2)] t'(2,3) t(1) have "t' = t" by simp
  with e t(3) show "ParseExpression s = Some (Some E, s')" by simp
qed

text \<open>
  C1. \<open>ParseExpression\<close> groups binary operators by precedence, and operators of equal
  precedence to the left, for every expression. It returns a node exactly when the
  first primary and the sequence of operators and primaries after it parse, and the
  node is then the tree over these operands and operators, in their order, in which
  the left operand of an operator holds only operators that bind at least as tightly
  and its right operand only operators that bind strictly tighter (\<open>climbed\<close>). There
  is one such tree, so that the grouping is the parser's result and no other. The
  primaries are whatever \<open>ParsePrimary\<close> returns: numbers, variables, calls and
  parenthesised expressions, which are grouped in their turn. So \<open>1+2*3\<close> is
  \<open>1+(2*3)\<close>, \<open>1-2-3\<close> is \<open>(1-2)-3\<close> and \<open>1<2+3\<close> is \<open>1<(2+3)\<close>; the witness has
  \<open>1+2*3+4\<close>, which is \<open>(1+(2*3))+4\<close>, and \<open>(1+2)*3\<close>.
\<close>

theorem ParseExpression_precedence:
  "(declared_binops (BinopPrecedence s) \<longrightarrow>
      (ParseExpression s = Some (Some E, s') \<longleftrightarrow>
         (\<exists>p s1 t. ParsePrimary s = Some (Some p, s1) \<and>
            binop_sequence 0 s1 = Some (Some (operators t), s') \<and>
            first_operand t = p \<and> climbed t \<and> expr_of t = E))) \<and>
   (\<forall>t t'. climbed t \<and> climbed t' \<and> first_operand t = first_operand t' \<and>
      operators t = operators t' \<longrightarrow> t = t') \<and>
   run_parser ParseExpression ''1+2*3'' =
     Some (Some (BinaryExprAST CHR ''+'' (NumberExprAST 1)
                   (BinaryExprAST CHR ''*'' (NumberExprAST 2) (NumberExprAST 3))), []) \<and>
   run_parser ParseExpression ''1-2-3'' =
     Some (Some (BinaryExprAST CHR ''-''
                   (BinaryExprAST CHR ''-'' (NumberExprAST 1) (NumberExprAST 2))
                   (NumberExprAST 3)), []) \<and>
   run_parser ParseExpression ''1<2+3'' =
     Some (Some (BinaryExprAST CHR ''<'' (NumberExprAST 1)
                   (BinaryExprAST CHR ''+'' (NumberExprAST 2) (NumberExprAST 3))), [])"
proof (intro conjI impI allI)
  assume "declared_binops (BinopPrecedence s)"
  then show "ParseExpression s = Some (Some E, s') \<longleftrightarrow>
         (\<exists>p s1 t. ParsePrimary s = Some (Some p, s1) \<and>
            binop_sequence 0 s1 = Some (Some (operators t), s') \<and>
            first_operand t = p \<and> climbed t \<and> expr_of t = E)"
    by (rule ParseExpression_grouping)
next
  fix t t'
  assume "climbed t \<and> climbed t' \<and> first_operand t = first_operand t' \<and>
      operators t = operators t'"
  then show "t = t'" by (simp add: climbed_unique)
qed (simp_all add: parser_eval lexer_eval)

theorem ParseExpression_precedence_witness:
  "declared_binops (BinopPrecedence (the (getNextToken (initial_state ''1+2*3+4'')))) \<and>
   map_option fst (ParseExpression (the (getNextToken (initial_state ''1+2*3+4'')))) =
     Some (Some (BinaryExprAST CHR ''+''
       (BinaryExprAST CHR ''+'' (NumberExprAST 1)
          (BinaryExprAST CHR ''*'' (NumberExprAST 2) (NumberExprAST 3)))
       (NumberExprAST 4))) \<and>
   (\<exists>t. first_operand t = NumberExprAST 1 \<and>
        operators t = [(CHR ''+'', NumberExprAST 2), (CHR ''*'', NumberExprAST 3),
                       (CHR ''+'', NumberExprAST 4)] \<and>
        climbed t \<and>
        expr_of t = BinaryExprAST CHR ''+''
          (BinaryExprAST CHR ''+'' (NumberExprAST 1)
             (BinaryExprAST CHR ''*'' (NumberExprAST 2) (NumberExprAST 3)))
          (NumberExprAST 4)) \<and>
   run_parser ParseExpression ''(1+2)*3'' =
     Some (Some (BinaryExprAST CHR ''*''
                   (BinaryExprAST CHR ''+'' (NumberExprAST 1) (NumberExprAST 2))
                   (NumberExprAST 3)), [])"
proof -
  let ?s = "the (getNextToken (initial_state ''1+2*3+4''))"
  let ?E = "BinaryExprAST CHR ''+''
       (BinaryExprAST CHR ''+'' (NumberExprAST 1)
          (BinaryExprAST CHR ''*'' (NumberExprAST 2) (NumberExprAST 3)))
       (NumberExprAST 4)"
  let ?s1 = "snd (the (ParsePrimary ?s))"
  have n: "getNextToken (initial_state ''1+2*3+4'') = Some ?s"
    by (simp add: lexer_eval)
  from getNextToken_declared [OF n declared_binops_initial]
  have d: "declared_binops (BinopPrecedence ?s)" .
  have e: "ParseExpression ?s = Some (Some ?E, snd (the (ParseExpression ?s)))"
    by (simp add: parser_eval lexer_eval)
  have p: "ParsePrimary ?s = Some (Some (NumberExprAST 1), ?s1)"
    by (simp add: parser_eval lexer_eval)
  have b: "map_option fst (binop_sequence 0 ?s1) =
    Some (Some [(CHR ''+'', NumberExprAST 2), (CHR ''*'', NumberExprAST 3),
                (CHR ''+'', NumberExprAST 4)])"
    by (simp add: binop_sequence.simps parser_eval lexer_eval)
  from ParseExpression_precedence [of ?s ?E "snd (the (ParseExpression ?s))"] d e
  obtain p' s1 t where "ParsePrimary ?s = Some (Some p', s1)"
    "binop_sequence 0 s1 = Some (Some (operators t), snd (the (ParseExpression ?s)))"
    "first_operand t = p'" "climbed t" "expr_of t = ?E"
    by blast
  with p b have "first_operand t = NumberExprAST 1 \<and>
        operators t = [(CHR ''+'', NumberExprAST 2), (CHR ''*'', NumberExprAST 3),
                       (CHR ''+'', NumberExprAST 4)] \<and> climbed t \<and> expr_of t = ?E"
    by simp
  then have "\<exists>t. first_operand t = NumberExprAST 1 \<and>
        operators t = [(CHR ''+'', NumberExprAST 2), (CHR ''*'', NumberExprAST 3),
                       (CHR ''+'', NumberExprAST 4)] \<and> climbed t \<and> expr_of t = ?E"
    by blast
  moreover from e have "map_option fst (ParseExpression ?s) = Some (Some ?E)"
    by (metis fst_conv option.simps(9))
  moreover have "run_parser ParseExpression ''(1+2)*3'' =
     Some (Some (BinaryExprAST CHR ''*''
                   (BinaryExprAST CHR ''+'' (NumberExprAST 1) (NumberExprAST 2))
                   (NumberExprAST 3)), [])"
    by (simp add: parser_eval lexer_eval)
  ultimately show ?thesis using d by blast
qed




subsection \<open>The token sequence\<close>

text \<open>
  What the lexer reads from: its lookahead character and the unread input.
\<close>

definition lexer_view :: "state \<Rightarrow> int \<times> string" where
  "lexer_view s = (LastChar s, stdin s)"

text \<open>
  A token with its payload: the text in \<open>IdentifierStr\<close> for an identifier or a keyword,
  the value in \<open>NumVal\<close> for a number.
\<close>

definition token_payload :: "int \<Rightarrow> state \<Rightarrow> int \<times> string option \<times> rat option" where
  "token_payload tok s =
     (tok,
      if tok = tok_identifier \<or> tok = tok_def \<or> tok = tok_extern then Some (IdentifierStr s)
      else None,
      if tok = tok_number then Some (NumVal s) else None)"

text \<open>
  The tokens \<open>gettok\<close> returns when called again and again, up to and including the
  end-of-input token; the flag is \<open>False\<close> when the sequence ends because \<open>std::stod\<close>
  threw.
\<close>

function tokens :: "state \<Rightarrow> (int \<times> string option \<times> rat option) list \<times> bool" where
  "tokens s =
     (case gettok s of
        None \<Rightarrow> ([], False)
      | Some (tok, s') \<Rightarrow>
          if tok = tok_eof then ([token_payload tok s'], True)
          else (case tokens s' of (toks, ended) \<Rightarrow> (token_payload tok s' # toks, ended)))"
  by pat_completeness auto
termination
  by (relation "measure unread") (auto dest!: gettok_unread)

declare tokens.simps [simp del]

lemma lexer_view_update [simp]:
  "lexer_view (s\<lparr>IdentifierStr := i\<rparr>) = lexer_view s"
  "lexer_view (s\<lparr>NumVal := v\<rparr>) = lexer_view s"
  "lexer_view (s\<lparr>CurTok := t\<rparr>) = lexer_view s"
  "lexer_view (s\<lparr>BinopPrecedence := m\<rparr>) = lexer_view s"
  "lexer_view (s\<lparr>stderr := e\<rparr>) = lexer_view s"
  by (simp_all add: lexer_view_def)

lemma getchar_view:
  assumes "lexer_view s1 = lexer_view s2" and "getchar s1 = (c, s1')"
  shows "\<exists>s2'. getchar s2 = (c, s2') \<and> stdin s2' = stdin s1'"
  using assms by (auto simp: getchar_def lexer_view_def split: list.splits)

lemma getchar_IdentifierStr: "getchar s = (c, s') \<Longrightarrow> IdentifierStr s' = IdentifierStr s"
  by (auto simp: getchar_def split: list.splits)

lemma gettok_skip_space_view:
  "lexer_view s1 = lexer_view s2 \<Longrightarrow>
   lexer_view (gettok_skip_space s1) = lexer_view (gettok_skip_space s2)"
proof (induction s1 arbitrary: s2 rule: gettok_skip_space.induct)
  case (1 s)
  show ?case
  proof (cases "isspace (LastChar s)")
    case True
    obtain c s' where g: "getchar s = (c, s')" by (cases "getchar s")
    from getchar_view [OF "1.prems" g] obtain s2' where
      g2: "getchar s2 = (c, s2')" and st: "stdin s2' = stdin s'" by blast
    from st have "lexer_view (s'\<lparr>LastChar := c\<rparr>) = lexer_view (s2'\<lparr>LastChar := c\<rparr>)"
      by (simp add: lexer_view_def)
    from "1.IH" [OF True g [symmetric] this] True g g2 "1.prems" show ?thesis
      by (simp add: gettok_skip_space.simps [of s] gettok_skip_space.simps [of s2]
          lexer_view_def)
  next
    case False
    with "1.prems" show ?thesis
      by (simp add: gettok_skip_space.simps [of s] gettok_skip_space.simps [of s2]
          lexer_view_def)
  qed
qed

lemma gettok_identifier_view:
  "stdin s1 = stdin s2 \<Longrightarrow> IdentifierStr s1 = IdentifierStr s2 \<Longrightarrow>
   lexer_view (gettok_identifier s1) = lexer_view (gettok_identifier s2) \<and>
   IdentifierStr (gettok_identifier s1) = IdentifierStr (gettok_identifier s2)"
proof (induction s1 arbitrary: s2 rule: gettok_identifier.induct)
  case (1 s)
  obtain c s' where g: "getchar s = (c, s')" by (cases "getchar s")
  from "1.prems"(1) g obtain s2' where g2: "getchar s2 = (c, s2')" and st: "stdin s2' = stdin s'"
    by (auto simp: getchar_def split: list.splits)
  from getchar_IdentifierStr [OF g] getchar_IdentifierStr [OF g2] "1.prems"(2)
  have i: "IdentifierStr s' = IdentifierStr s2'" by simp
  show ?case
  proof (cases "isalnum c")
    case True
    from "1.IH" [OF g [symmetric] True,
        of "s2'\<lparr>LastChar := c, IdentifierStr := IdentifierStr s2' @ [char_of c]\<rparr>"] st i
    show ?thesis using True g g2
      by (simp add: gettok_identifier.simps [of s] gettok_identifier.simps [of s2])
  next
    case False
    with g g2 st i show ?thesis
      by (simp add: gettok_identifier.simps [of s] gettok_identifier.simps [of s2]
          lexer_view_def)
  qed
qed

lemma gettok_number_view:
  "lexer_view s1 = lexer_view s2 \<Longrightarrow>
   fst (gettok_number NumStr s1) = fst (gettok_number NumStr s2) \<and>
   lexer_view (snd (gettok_number NumStr s1)) = lexer_view (snd (gettok_number NumStr s2))"
proof (induction NumStr s1 arbitrary: s2 rule: gettok_number.induct)
  case (1 NumStr s)
  obtain c s' where g: "getchar s = (c, s')" by (cases "getchar s")
  from getchar_view [OF "1.prems" g] obtain s2' where
    g2: "getchar s2 = (c, s2')" and st: "stdin s2' = stdin s'" by blast
  from "1.prems" have l: "LastChar s2 = LastChar s" by (simp add: lexer_view_def)
  from st have v: "lexer_view (s'\<lparr>LastChar := c\<rparr>) = lexer_view (s2'\<lparr>LastChar := c\<rparr>)"
    by (simp add: lexer_view_def)
  show ?case
  proof (cases "isdigit c \<or> c = 46")
    case True
    from "1.IH" [OF g [symmetric] True v] True g g2 l show ?thesis
      by (simp add: gettok_number.simps [of NumStr s] gettok_number.simps [of NumStr s2])
  next
    case False
    with g g2 l v show ?thesis
      by (simp add: gettok_number.simps [of NumStr s] gettok_number.simps [of NumStr s2])
  qed
qed

lemma gettok_comment_view:
  "stdin s1 = stdin s2 \<Longrightarrow>
   lexer_view (gettok_comment s1) = lexer_view (gettok_comment s2)"
proof (induction s1 arbitrary: s2 rule: gettok_comment.induct)
  case (1 s)
  obtain c s' where g: "getchar s = (c, s')" by (cases "getchar s")
  from "1.prems"(1) g obtain s2' where g2: "getchar s2 = (c, s2')" and st: "stdin s2' = stdin s'"
    by (auto simp: getchar_def split: list.splits)
  show ?case
  proof (cases "c \<noteq> EOF \<and> c \<noteq> 10 \<and> c \<noteq> 13")
    case True
    from "1.IH" [OF g [symmetric] True, of "s2'\<lparr>LastChar := c\<rparr>"] st True g g2
    show ?thesis
      by (simp add: gettok_comment.simps [of s] gettok_comment.simps [of s2])
  next
    case False
    with g g2 st show ?thesis
      by (auto simp: gettok_comment.simps [of s] gettok_comment.simps [of s2] lexer_view_def)
  qed
qed

text \<open>
  The values \<open>getchar\<close> returns, and so the values the lookahead takes once the lexer has
  read a character: \<open>EOF\<close> or a byte.
\<close>

definition getchar_value :: "int \<Rightarrow> bool" where
  "getchar_value c \<longleftrightarrow> - 1 \<le> c \<and> c < 256"

lemma of_char_int_range: "0 \<le> (of_char c :: int) \<and> (of_char c :: int) < 256"
  using pos_mod_sign [of 256 "of_char c :: int"] pos_mod_bound [of 256 "of_char c :: int"]
  by simp

lemma getchar_getchar_value:
  assumes "getchar s = (c, s')"
  shows "getchar_value c"
proof (cases "stdin s")
  case Nil
  with assms show ?thesis by (simp add: getchar_def getchar_value_def)
next
  case (Cons x xs)
  with assms have "c = of_char x" by (simp add: getchar_def)
  with of_char_int_range [of x] show ?thesis by (simp add: getchar_value_def)
qed

lemma getchar_value_cases:
  "getchar_value c \<Longrightarrow> c = EOF \<or> (0 \<le> c \<and> c < 256)"
  by (auto simp: getchar_value_def)

lemma gettok_identifier_value: "getchar_value (LastChar (gettok_identifier s))"
proof (induction s rule: gettok_identifier.induct)
  case (1 s)
  obtain c s' where g: "getchar s = (c, s')" by (cases "getchar s")
  show ?case
  proof (cases "isalnum c")
    case True
    from "1.IH" [OF g [symmetric] True] True g show ?thesis
      by (simp add: gettok_identifier.simps [of s])
  next
    case False
    with getchar_getchar_value [OF g] g show ?thesis
      by (simp add: gettok_identifier.simps [of s])
  qed
qed

lemma gettok_number_value: "getchar_value (LastChar (snd (gettok_number NumStr s)))"
proof (induction NumStr s rule: gettok_number.induct)
  case (1 NumStr s)
  obtain c s' where g: "getchar s = (c, s')" by (cases "getchar s")
  show ?case
  proof (cases "isdigit c \<or> c = 46")
    case True
    from "1.IH" [OF g [symmetric] True] True g show ?thesis
      by (simp add: gettok_number.simps [of NumStr s])
  next
    case False
    with getchar_getchar_value [OF g] g show ?thesis
      by (simp add: gettok_number.simps [of NumStr s])
  qed
qed

lemma gettok_comment_value: "getchar_value (LastChar (gettok_comment s))"
proof (induction s rule: gettok_comment.induct)
  case (1 s)
  obtain c s' where g: "getchar s = (c, s')" by (cases "getchar s")
  show ?case
  proof (cases "c \<noteq> EOF \<and> c \<noteq> 10 \<and> c \<noteq> 13")
    case True
    from "1.IH" [OF g [symmetric] True] True g show ?thesis
      by (simp add: gettok_comment.simps [of s])
  next
    case False
    with getchar_getchar_value [OF g] g show ?thesis
      by (auto simp: gettok_comment.simps [of s])
  qed
qed

lemma gettok_skip_space_value:
  "getchar_value (LastChar s) \<Longrightarrow> getchar_value (LastChar (gettok_skip_space s))"
proof (induction s rule: gettok_skip_space.induct)
  case (1 s)
  show ?case
  proof (cases "isspace (LastChar s)")
    case True
    obtain c s' where g: "getchar s = (c, s')" by (cases "getchar s")
    from getchar_getchar_value [OF g]
    have "getchar_value (LastChar (s'\<lparr>LastChar := c\<rparr>))" by simp
    from "1.IH" [OF True g [symmetric] this] True g show ?thesis
      by (simp add: gettok_skip_space.simps [of s])
  next
    case False
    with "1.prems" show ?thesis by (simp add: gettok_skip_space.simps [of s])
  qed
qed

lemma gettok_value:
  "getchar_value (LastChar s0) \<Longrightarrow> gettok s0 = Some (tok, s') \<Longrightarrow>
   getchar_value (LastChar s') \<and> - 5 \<le> tok \<and> tok < 256"
proof (induction s0 arbitrary: tok s' rule: gettok.induct)
  case (1 s0)
  define s where "s = gettok_skip_space s0"
  have v: "getchar_value (LastChar s)"
    unfolding s_def using "1.prems"(1) by (rule gettok_skip_space_value)
  note eq = "1.prems"(2) [unfolded gettok.simps [of s0], folded s_def]
  consider (ident) "isalpha (LastChar s)"
    | (num) "\<not> isalpha (LastChar s)" "isdigit (LastChar s) \<or> LastChar s = 46"
    | (comment) "\<not> isalpha (LastChar s)" "\<not> (isdigit (LastChar s) \<or> LastChar s = 46)"
        "LastChar s = 35"
    | (other) "\<not> isalpha (LastChar s)" "\<not> (isdigit (LastChar s) \<or> LastChar s = 46)"
        "LastChar s \<noteq> 35"
    by blast
  then show ?case
  proof cases
    case ident
    with eq have "s' = gettok_identifier (s\<lparr>IdentifierStr := [char_of (LastChar s)]\<rparr>)"
      and "tok = tok_def \<or> tok = tok_extern \<or> tok = tok_identifier"
      by (auto split: if_splits)
    then show ?thesis using gettok_identifier_value by auto
  next
    case num
    with eq obtain v' where "s' = (snd (gettok_number [] s))\<lparr>NumVal := v'\<rparr>" "tok = tok_number"
      by (auto split: prod.splits option.splits)
    then show ?thesis using gettok_number_value [of "[]" s] by simp
  next
    case comment
    show ?thesis
    proof (cases "LastChar (gettok_comment s) \<noteq> EOF")
      case True
      with eq comment have g: "gettok (gettok_comment s) = Some (tok, s')" by simp
      from "1.IH" [folded s_def, OF comment(1) comment(2) comment(3) True
          gettok_comment_value g]
      show ?thesis .
    next
      case False
      with eq comment have "s' = gettok_comment s" "tok = tok_eof" by simp_all
      then show ?thesis using gettok_comment_value [of s] by simp
    qed
  next
    case other
    show ?thesis
    proof (cases "LastChar s = EOF")
      case True
      with eq other v show ?thesis by auto
    next
      case False
      obtain c s1 where g: "getchar s = (c, s1)" by (cases "getchar s")
      with eq other False have "s' = s1\<lparr>LastChar := c\<rparr>" "tok = LastChar s" by simp_all
      with getchar_getchar_value [OF g] v show ?thesis
        by (auto simp: getchar_value_def)
    qed
  qed
qed

text \<open>The observable part of a call of \<open>gettok\<close>.\<close>

definition gettok_result ::
  "state \<Rightarrow> ((int \<times> string option \<times> rat option) \<times> int \<times> string) option" where
  "gettok_result s = map_option (\<lambda>(tok, s'). (token_payload tok s', lexer_view s')) (gettok s)"

lemma gettok_view:
  "getchar_value (LastChar s1) \<Longrightarrow> lexer_view s1 = lexer_view s2 \<Longrightarrow>
   gettok_result s1 = gettok_result s2"
proof (induction s1 arbitrary: s2 rule: gettok.induct)
  case (1 s0)
  define s where "s = gettok_skip_space s0"
  define t where "t = gettok_skip_space s2"
  have gv: "getchar_value (LastChar s)"
    unfolding s_def using "1.prems"(1) by (rule gettok_skip_space_value)
  have v: "lexer_view s = lexer_view t"
    unfolding s_def t_def using "1.prems"(2) by (rule gettok_skip_space_view)
  then have l: "LastChar t = LastChar s" and i: "stdin t = stdin s"
    by (simp_all add: lexer_view_def)
  note e1 = gettok.simps [of s0, folded s_def]
  note e2 = gettok.simps [of s2, folded t_def]
  consider (ident) "isalpha (LastChar s)"
    | (num) "\<not> isalpha (LastChar s)" "isdigit (LastChar s) \<or> LastChar s = 46"
    | (comment) "\<not> isalpha (LastChar s)" "\<not> (isdigit (LastChar s) \<or> LastChar s = 46)"
        "LastChar s = 35"
    | (other) "\<not> isalpha (LastChar s)" "\<not> (isdigit (LastChar s) \<or> LastChar s = 46)"
        "LastChar s \<noteq> 35"
    by blast
  then show ?case
  proof cases
    case ident
    from gettok_identifier_view [of "s\<lparr>IdentifierStr := [char_of (LastChar s)]\<rparr>"
        "t\<lparr>IdentifierStr := [char_of (LastChar t)]\<rparr>"] l i
    have "lexer_view (gettok_identifier (s\<lparr>IdentifierStr := [char_of (LastChar s)]\<rparr>))
        = lexer_view (gettok_identifier (t\<lparr>IdentifierStr := [char_of (LastChar t)]\<rparr>))"
      and "IdentifierStr (gettok_identifier (s\<lparr>IdentifierStr := [char_of (LastChar s)]\<rparr>))
        = IdentifierStr (gettok_identifier (t\<lparr>IdentifierStr := [char_of (LastChar t)]\<rparr>))"
      by simp_all
    with ident l show ?thesis
      by (simp add: gettok_result_def e1 e2 token_payload_def)
  next
    case num
    from gettok_number_view [OF v, of "[]"]
    have "fst (gettok_number [] s) = fst (gettok_number [] t)"
      and "lexer_view (snd (gettok_number [] s)) = lexer_view (snd (gettok_number [] t))"
      by simp_all
    with num l show ?thesis
      by (auto simp: gettok_result_def e1 e2 token_payload_def split: prod.splits option.splits)
  next
    case comment
    from gettok_comment_view [OF i [symmetric]]
    have c: "lexer_view (gettok_comment s) = lexer_view (gettok_comment t)" .
    then have lc: "LastChar (gettok_comment t) = LastChar (gettok_comment s)"
      by (simp add: lexer_view_def)
    show ?thesis
    proof (cases "LastChar (gettok_comment s) \<noteq> EOF")
      case True
      from "1.IH" [folded s_def, OF comment(1) comment(2) comment(3) True
          gettok_comment_value c]
      have "gettok_result (gettok_comment s) = gettok_result (gettok_comment t)" .
      with comment l lc True show ?thesis
        by (simp add: gettok_result_def e1 e2)
    next
      case False
      with comment l lc c show ?thesis
        by (simp add: gettok_result_def e1 e2 token_payload_def)
    qed
  next
    case other
    show ?thesis
    proof (cases "LastChar s = EOF")
      case True
      with other l v show ?thesis
        by (simp add: gettok_result_def e1 e2 token_payload_def)
    next
      case False
      obtain c s1 where g: "getchar s = (c, s1)" by (cases "getchar s")
      from getchar_view [OF v g] obtain t1 where
        g2: "getchar t = (c, t1)" and st: "stdin t1 = stdin s1" by blast
      from gv False have "0 \<le> LastChar s" by (auto simp: getchar_value_def)
      with other False l g g2 st show ?thesis
        by (simp add: gettok_result_def e1 e2 token_payload_def lexer_view_def)
    qed
  qed
qed

lemma tokens_view:
  "getchar_value (LastChar s1) \<Longrightarrow> lexer_view s1 = lexer_view s2 \<Longrightarrow> tokens s1 = tokens s2"
proof (induction s1 arbitrary: s2 rule: tokens.induct)
  case (1 s)
  from gettok_view [OF "1.prems"] have r: "gettok_result s = gettok_result s2" .
  show ?case
  proof (cases "gettok s")
    case None
    with r have "gettok s2 = None" by (simp add: gettok_result_def)
    with None show ?thesis by (simp add: tokens.simps [of s] tokens.simps [of s2])
  next
    case (Some p)
    obtain tok s' where p: "p = (tok, s')" by (cases p)
    from Some p r obtain p2 where g2': "gettok s2 = Some p2"
      by (cases "gettok s2") (simp_all add: gettok_result_def)
    obtain tok2 s2' where p2: "p2 = (tok2, s2')" by (cases p2)
    from r Some p g2' p2 have tp: "token_payload tok2 s2' = token_payload tok s'"
      and lv: "lexer_view s' = lexer_view s2'"
      by (simp_all add: gettok_result_def)
    from tp have "tok2 = tok" by (simp add: token_payload_def)
    with g2' p2 tp have g2: "gettok s2 = Some (tok, s2')"
      and tp: "token_payload tok s2' = token_payload tok s'"
      by simp_all
    from Some p have gs: "gettok s = Some (tok, s')" by simp
    from gettok_value [OF "1.prems"(1) gs] have gv: "getchar_value (LastChar s')" by simp
    show ?thesis
    proof (cases "tok = tok_eof")
      case True
      with gs g2 tp show ?thesis
        by (simp add: tokens.simps [of s] tokens.simps [of s2])
    next
      case False
      from "1.IH" [OF Some p [symmetric] False gv lv] gs g2 tp False show ?thesis
        by (simp add: tokens.simps [of s] tokens.simps [of s2])
    qed
  qed
qed

text \<open>
  C8. The lexer is a function of its lookahead character and of the unread input: two
  states that agree on these give the same token with the same payload and leave the
  same lookahead and input, whatever \<open>IdentifierStr\<close>, \<open>NumVal\<close> and the parser's
  variables held before; so they give the same sequence of tokens.
\<close>

theorem gettok_deterministic:
  "getchar_value (LastChar s1) \<and> LastChar s1 = LastChar s2 \<and> stdin s1 = stdin s2 \<longrightarrow>
   gettok_result s1 = gettok_result s2 \<and> tokens s1 = tokens s2"
proof (intro impI, elim conjE)
  assume v: "getchar_value (LastChar s1)" and "LastChar s1 = LastChar s2" "stdin s1 = stdin s2"
  then have "lexer_view s1 = lexer_view s2" by (simp add: lexer_view_def)
  with v show "gettok_result s1 = gettok_result s2 \<and> tokens s1 = tokens s2"
    by (simp add: gettok_view tokens_view)
qed

lemmas tokens_eval = tokens.simps token_payload_def gettok_result_def lexer_view_def

theorem gettok_deterministic_witness:
  "tokens (initial_state ''def f(x) x+1.5'')
     = ([(tok_def, Some ''def'', None), (tok_identifier, Some ''f'', None), (40, None, None),
         (tok_identifier, Some ''x'', None), (41, None, None),
         (tok_identifier, Some ''x'', None), (43, None, None),
         (tok_number, None, Some (3 / 2)), (tok_eof, None, None)], True) \<and>
   tokens ((initial_state ''def f(x) x+1.5'')\<lparr>IdentifierStr := ''old'', NumVal := 7, CurTok := 5\<rparr>)
     = tokens (initial_state ''def f(x) x+1.5'')"
proof -
  let ?s = "initial_state ''def f(x) x+1.5''"
  have "tokens ?s
     = ([(tok_def, Some ''def'', None), (tok_identifier, Some ''f'', None), (40, None, None),
         (tok_identifier, Some ''x'', None), (41, None, None),
         (tok_identifier, Some ''x'', None), (43, None, None),
         (tok_number, None, Some (3 / 2)), (tok_eof, None, None)], True)"
    by (simp add: tokens_eval lexer_eval)
  moreover from gettok_deterministic [of "?s\<lparr>IdentifierStr := ''old'', NumVal := 7, CurTok := 5\<rparr>" ?s]
  have "tokens (?s\<lparr>IdentifierStr := ''old'', NumVal := 7, CurTok := 5\<rparr>) = tokens ?s"
    by (simp add: initial_state_def getchar_value_def)
  ultimately show ?thesis by blast
qed

subsection \<open>The lexer on a stream of characters\<close>

text \<open>
  \<open>lexer_at r s\<close> is the state \<open>s\<close> with the lexer standing in front of the characters
  \<open>r\<close>: the first one is its lookahead, the others are unread; with no character left
  the lookahead is \<open>EOF\<close>. The initial state stands in front of a space and the input.
\<close>

definition lexer_at :: "string \<Rightarrow> state \<Rightarrow> state" where
  "lexer_at r s = s\<lparr>LastChar := (case r of [] \<Rightarrow> EOF | c # cs \<Rightarrow> of_char c), stdin := tl r\<rparr>"

abbreviation is_space :: "char \<Rightarrow> bool" where "is_space c \<equiv> isspace (of_char c)"
abbreviation is_alnum :: "char \<Rightarrow> bool" where "is_alnum c \<equiv> isalnum (of_char c)"
abbreviation is_numchar :: "char \<Rightarrow> bool" where
  "is_numchar c \<equiv> isdigit (of_char c) \<or> (of_char c :: int) = 46"
abbreviation in_comment :: "char \<Rightarrow> bool" where
  "in_comment c \<equiv> (of_char c :: int) \<noteq> 10 \<and> (of_char c :: int) \<noteq> 13"

lemma initial_state_lexer_at: "initial_state inp = lexer_at (CHR '' '' # inp) (initial_state inp)"
  by (simp add: initial_state_def lexer_at_def)

lemma lexer_at_update [simp]:
  "lexer_at r (s\<lparr>IdentifierStr := i\<rparr>) = (lexer_at r s)\<lparr>IdentifierStr := i\<rparr>"
  "lexer_at r (s\<lparr>NumVal := v\<rparr>) = (lexer_at r s)\<lparr>NumVal := v\<rparr>"
  "lexer_at r (lexer_at r' s) = lexer_at r s"
  by (simp_all add: lexer_at_def)

lemma lexer_at_sel [simp]:
  "IdentifierStr (lexer_at r s) = IdentifierStr s"
  "NumVal (lexer_at r s) = NumVal s"
  "stdin (lexer_at r s) = tl r"
  "LastChar (lexer_at (c # cs) s) = of_char c"
  "LastChar (lexer_at [] s) = EOF"
  by (simp_all add: lexer_at_def)

lemma of_char_not_EOF [simp]: "(of_char c :: int) \<noteq> - 1"
  using of_char_int_range [of c] by simp

lemma lexer_at_EOF_iff: "LastChar (lexer_at r s) = EOF \<longleftrightarrow> r = []"
  by (cases r) simp_all

lemma getchar_lexer_at:
  "getchar s = (c, s') \<Longrightarrow> s'\<lparr>LastChar := c\<rparr> = lexer_at (stdin s) s"
  by (auto simp: getchar_def lexer_at_def split: list.splits)

lemma getchar_EOF_iff: "getchar s = (c, s') \<Longrightarrow> c = EOF \<longleftrightarrow> stdin s = []"
  by (auto simp: getchar_def split: list.splits)

lemma getchar_Cons: "stdin s = x # xs \<Longrightarrow> getchar s = (of_char x, s\<lparr>stdin := xs\<rparr>)"
  by (simp add: getchar_def)

lemma getchar_Nil: "stdin s = [] \<Longrightarrow> getchar s = (EOF, s)"
  by (simp add: getchar_def)

lemma gettok_skip_space_lexer_at:
  "gettok_skip_space (lexer_at r s) = lexer_at (dropWhile is_space r) s"
proof (induction r)
  case Nil
  show ?case by (simp add: gettok_skip_space.simps [of "lexer_at [] s"] isspace_def)
next
  case (Cons c cs)
  show ?case
  proof (cases "is_space c")
    case True
    obtain c' s' where g: "getchar (lexer_at (c # cs) s) = (c', s')"
      by (cases "getchar (lexer_at (c # cs) s)")
    from getchar_lexer_at [OF g] have "s'\<lparr>LastChar := c'\<rparr> = lexer_at cs s" by simp
    with True g Cons.IH show ?thesis
      by (simp add: gettok_skip_space.simps [of "lexer_at (c # cs) s"])
  next
    case False
    then show ?thesis by (simp add: gettok_skip_space.simps [of "lexer_at (c # cs) s"])
  qed
qed

lemma gettok_identifier_lexer_at:
  "gettok_identifier s =
     lexer_at (dropWhile is_alnum (stdin s))
       (s\<lparr>IdentifierStr := IdentifierStr s @ takeWhile is_alnum (stdin s)\<rparr>)"
proof (induction "stdin s" arbitrary: s)
  case Nil
  from Nil [symmetric] show ?case
    by (simp add: gettok_identifier.simps [of s] getchar_Nil isalnum_def isalpha_def
        isdigit_def lexer_at_def)
next
  case (Cons x xs)
  note st = Cons.hyps(2) [symmetric]
  show ?case
  proof (cases "is_alnum x")
    case True
    let ?s' = "s\<lparr>stdin := xs, LastChar := of_char x,
      IdentifierStr := IdentifierStr s @ [x]\<rparr>"
    have "xs = stdin ?s'" by simp
    from Cons.hyps(1) [OF this] True st show ?thesis
      by (simp add: gettok_identifier.simps [of s] getchar_Cons lexer_at_def)
  next
    case False
    with st show ?thesis
      by (simp add: gettok_identifier.simps [of s] getchar_Cons lexer_at_def)
  qed
qed

lemma gettok_number_lexer_at:
  "gettok_number NumStr s =
     (NumStr @ char_of (LastChar s) # takeWhile is_numchar (stdin s),
      lexer_at (dropWhile is_numchar (stdin s)) s)"
proof (induction "stdin s" arbitrary: s NumStr)
  case Nil
  from Nil [symmetric] show ?case
    by (simp add: gettok_number.simps [of NumStr s] getchar_Nil isdigit_def lexer_at_def)
next
  case (Cons x xs)
  note st = Cons.hyps(2) [symmetric]
  show ?case
  proof (cases "is_numchar x")
    case True
    let ?s' = "s\<lparr>stdin := xs, LastChar := of_char x\<rparr>"
    have "xs = stdin ?s'" by simp
    from Cons.hyps(1) [OF this, of "NumStr @ [char_of (LastChar s)]"] True st show ?thesis
      by (simp add: gettok_number.simps [of NumStr s] getchar_Cons lexer_at_def)
  next
    case False
    with st show ?thesis
      by (simp add: gettok_number.simps [of NumStr s] getchar_Cons lexer_at_def)
  qed
qed

lemma gettok_comment_lexer_at:
  "gettok_comment s = lexer_at (dropWhile in_comment (stdin s)) s"
proof (induction "stdin s" arbitrary: s)
  case Nil
  from Nil [symmetric] show ?case
    by (simp add: gettok_comment.simps [of s] getchar_Nil lexer_at_def)
next
  case (Cons x xs)
  note st = Cons.hyps(2) [symmetric]
  show ?case
  proof (cases "in_comment x")
    case True
    let ?s' = "s\<lparr>stdin := xs, LastChar := of_char x\<rparr>"
    have "xs = stdin ?s'" by simp
    from Cons.hyps(1) [OF this] True st show ?thesis
      by (simp add: gettok_comment.simps [of s] getchar_Cons lexer_at_def)
  next
    case False
    with st show ?thesis
      by (auto simp: gettok_comment.simps [of s] getchar_Cons lexer_at_def)
  qed
qed

text \<open>One call of \<open>gettok\<close>, on the stream in front of the lexer.\<close>

lemma gettok_lexer_at:
  "gettok (lexer_at r s) =
     (case dropWhile is_space r of
        [] \<Rightarrow> Some (tok_eof, lexer_at [] s)
      | c # cs \<Rightarrow>
          if isalpha (of_char c) then
            Some (if c # takeWhile is_alnum cs = ''def'' then tok_def
                  else if c # takeWhile is_alnum cs = ''extern'' then tok_extern
                  else tok_identifier,
                  lexer_at (dropWhile is_alnum cs) (s\<lparr>IdentifierStr := c # takeWhile is_alnum cs\<rparr>))
          else if is_numchar c then
            (case stod (c # takeWhile is_numchar cs) of
               None \<Rightarrow> None
             | Some v \<Rightarrow> Some (tok_number, lexer_at (dropWhile is_numchar cs) (s\<lparr>NumVal := v\<rparr>)))
          else if c = CHR ''#'' then
            (if dropWhile in_comment cs \<noteq> [] then gettok (lexer_at (dropWhile in_comment cs) s)
             else Some (tok_eof, lexer_at [] s))
          else Some (of_char c, lexer_at cs s))"
proof -
  define d where "d = dropWhile is_space r"
  have e: "gettok_skip_space (lexer_at r s) = lexer_at d s"
    unfolding d_def by (rule gettok_skip_space_lexer_at)
  note g = gettok.simps [of "lexer_at r s", unfolded e]
  show ?thesis
    unfolding d_def [symmetric]
  proof (cases d)
    case Nil
    then show "gettok (lexer_at r s) =
      (case d of
        [] \<Rightarrow> Some (tok_eof, lexer_at [] s)
      | c # cs \<Rightarrow>
          if isalpha (of_char c) then
            Some (if c # takeWhile is_alnum cs = ''def'' then tok_def
                  else if c # takeWhile is_alnum cs = ''extern'' then tok_extern
                  else tok_identifier,
                  lexer_at (dropWhile is_alnum cs) (s\<lparr>IdentifierStr := c # takeWhile is_alnum cs\<rparr>))
          else if is_numchar c then
            (case stod (c # takeWhile is_numchar cs) of
               None \<Rightarrow> None
             | Some v \<Rightarrow> Some (tok_number, lexer_at (dropWhile is_numchar cs) (s\<lparr>NumVal := v\<rparr>)))
          else if c = CHR ''#'' then
            (if dropWhile in_comment cs \<noteq> [] then gettok (lexer_at (dropWhile in_comment cs) s)
             else Some (tok_eof, lexer_at [] s))
          else Some (of_char c, lexer_at cs s))"
      by (simp add: g isalpha_def isdigit_def)
  next
    case (Cons c cs)
    have h: "(of_char c :: int) = 35 \<longleftrightarrow> c = CHR ''#''"
      using of_char_eq_iff [of c "CHR ''#''", where ?'a = int] by simp
    have l: "LastChar (lexer_at (dropWhile in_comment cs) s) \<noteq> EOF
      \<longleftrightarrow> dropWhile in_comment cs \<noteq> []"
      by (simp only: lexer_at_EOF_iff)
    have n: "dropWhile in_comment cs = [] \<Longrightarrow> lexer_at (dropWhile in_comment cs) s = lexer_at [] s"
      by (simp only:)
    consider (ident) "isalpha (of_char c)"
      | (num) "\<not> isalpha (of_char c)" "is_numchar c"
      | (comment) "\<not> isalpha (of_char c)" "\<not> is_numchar c" "c = CHR ''#''"
      | (other) "\<not> isalpha (of_char c)" "\<not> is_numchar c" "c \<noteq> CHR ''#''"
      by blast
    then show "gettok (lexer_at r s) =
      (case d of
        [] \<Rightarrow> Some (tok_eof, lexer_at [] s)
      | c # cs \<Rightarrow>
          if isalpha (of_char c) then
            Some (if c # takeWhile is_alnum cs = ''def'' then tok_def
                  else if c # takeWhile is_alnum cs = ''extern'' then tok_extern
                  else tok_identifier,
                  lexer_at (dropWhile is_alnum cs) (s\<lparr>IdentifierStr := c # takeWhile is_alnum cs\<rparr>))
          else if is_numchar c then
            (case stod (c # takeWhile is_numchar cs) of
               None \<Rightarrow> None
             | Some v \<Rightarrow> Some (tok_number, lexer_at (dropWhile is_numchar cs) (s\<lparr>NumVal := v\<rparr>)))
          else if c = CHR ''#'' then
            (if dropWhile in_comment cs \<noteq> [] then gettok (lexer_at (dropWhile in_comment cs) s)
             else Some (tok_eof, lexer_at [] s))
          else Some (of_char c, lexer_at cs s))"
    proof cases
      case ident
      define i where "i = c # takeWhile is_alnum cs"
      have "gettok_identifier (lexer_at (c # cs) s\<lparr>IdentifierStr := [char_of (of_char c :: int)]\<rparr>)
        = lexer_at (dropWhile is_alnum cs) (s\<lparr>IdentifierStr := i\<rparr>)"
        by (simp add: gettok_identifier_lexer_at i_def)
      with ident Cons have "gettok (lexer_at r s) =
        Some (if i = ''def'' then tok_def else if i = ''extern'' then tok_extern
              else tok_identifier,
              lexer_at (dropWhile is_alnum cs) (s\<lparr>IdentifierStr := i\<rparr>))"
        by (simp add: g del: char_of_char)
      with ident Cons show ?thesis unfolding i_def by simp
    next
      case num
      with Cons show ?thesis
        by (simp add: g gettok_number_lexer_at split: option.splits)
    next
      case comment
      with Cons h l n show ?thesis
        by (simp add: g gettok_comment_lexer_at)
    next
      case other
      obtain c' s' where gc: "getchar (lexer_at (c # cs) s) = (c', s')"
        by (cases "getchar (lexer_at (c # cs) s)")
      from getchar_lexer_at [OF gc] have "s'\<lparr>LastChar := c'\<rparr> = lexer_at cs s" by simp
      with other Cons h gc show ?thesis
        by (simp add: g)
    qed
  qed
qed

text \<open>On a literal beyond the range of \<open>double\<close> the lexer does not return.\<close>

lemma gettok_out_of_range:
  "gettok (initial_state (CHR ''1'' # replicate 309 CHR ''0'')) = None"
proof -
  let ?z = "replicate 309 CHR ''0''"
  have "gettok (lexer_at (CHR '' '' # CHR ''1'' # ?z) (initial_state (CHR ''1'' # ?z))) = None"
    by (subst gettok_lexer_at) (simp add: isspace_def isalpha_def isdigit_def stod_out_of_range)
  then show ?thesis
    unfolding initial_state_lexer_at [symmetric] .
qed

lemma isalpha_not_isspace: "isalpha c \<Longrightarrow> \<not> isspace c"
  by (auto simp: isalpha_def isspace_def)

text \<open>
  C2. With the lexer in front of whitespace \<open>ws\<close>, a letter \<open>c\<close>, letters and digits \<open>run\<close>
  and a rest that does not go on with a letter or a digit, \<open>gettok\<close> returns \<open>tok_def\<close>
  when the letter and the run spell \<open>def\<close>, \<open>tok_extern\<close> when they spell \<open>extern\<close>, and
  \<open>tok_identifier\<close> otherwise; \<open>IdentifierStr\<close> holds the letter and the run, and the
  lexer is left in front of the rest: its first character is the lookahead and is no
  longer in the unread input.
\<close>

theorem gettok_identifier_token:
  assumes "isalpha (of_char c)" and "\<forall>x \<in> set run. is_alnum x"
    and "rest = [] \<or> \<not> is_alnum (hd rest)" and "\<forall>w \<in> set ws. is_space w"
  shows "gettok (lexer_at (ws @ c # run @ rest) s) =
           Some (if c # run = ''def'' then tok_def
                 else if c # run = ''extern'' then tok_extern
                 else tok_identifier,
                 lexer_at rest (s\<lparr>IdentifierStr := c # run\<rparr>)) \<and>
         LastChar (lexer_at rest (s\<lparr>IdentifierStr := c # run\<rparr>))
           = (case rest of [] \<Rightarrow> EOF | x # xs \<Rightarrow> of_char x) \<and>
         stdin (lexer_at rest (s\<lparr>IdentifierStr := c # run\<rparr>)) = tl rest \<and>
         IdentifierStr (lexer_at rest (s\<lparr>IdentifierStr := c # run\<rparr>)) = c # run"
proof -
  from assms(1) have "\<not> is_space c" by (rule isalpha_not_isspace)
  with assms(4) have d: "dropWhile is_space (ws @ c # run @ rest) = c # run @ rest"
    by (simp add: dropWhile_append3)
  from assms(3) have "takeWhile is_alnum rest = []" "dropWhile is_alnum rest = rest"
    by (cases rest; simp)+
  with assms(2) have t: "takeWhile is_alnum (run @ rest) = run"
    and r: "dropWhile is_alnum (run @ rest) = rest"
    by (simp_all add: takeWhile_append2 dropWhile_append2)
  have "gettok (lexer_at (ws @ c # run @ rest) s) =
           Some (if c # run = ''def'' then tok_def
                 else if c # run = ''extern'' then tok_extern
                 else tok_identifier,
                 lexer_at rest (s\<lparr>IdentifierStr := c # run\<rparr>))"
    unfolding gettok_lexer_at [of "ws @ c # run @ rest" s] d
    using assms(1) by (simp only: list.case if_True t r)
  then show ?thesis by (cases rest) simp_all
qed

theorem gettok_identifier_token_witness:
  "map_option (\<lambda>(tok, s). (tok, IdentifierStr s, LastChar s, stdin s))
     (gettok (initial_state ''  def foo'')) = Some (tok_def, ''def'', 32, ''foo'') \<and>
   map_option (\<lambda>(tok, s). (tok, IdentifierStr s, LastChar s, stdin s))
     (gettok (initial_state ''extern2(x)'')) = Some (tok_identifier, ''extern2'', 40, ''x)'')"
proof -
  have a: "isalpha (of_char CHR ''d'')" "\<forall>x \<in> set ''ef''. is_alnum x"
    "'' foo'' = [] \<or> \<not> is_alnum (hd '' foo'')" "\<forall>w \<in> set ''   ''. is_space w"
    by (simp_all add: isalpha_def isalnum_def isdigit_def isspace_def)
  have b: "isalpha (of_char CHR ''e'')" "\<forall>x \<in> set ''xtern2''. is_alnum x"
    "''(x)'' = [] \<or> \<not> is_alnum (hd ''(x)'')" "\<forall>w \<in> set '' ''. is_space w"
    by (simp_all add: isalpha_def isalnum_def isdigit_def isspace_def)
  have i: "initial_state ''  def foo'' = lexer_at (''   '' @ CHR ''d'' # ''ef'' @ '' foo'') (initial_state ''  def foo'')"
    "initial_state ''extern2(x)'' = lexer_at ('' '' @ CHR ''e'' # ''xtern2'' @ ''(x)'') (initial_state ''extern2(x)'')"
    by (simp_all add: initial_state_def lexer_at_def)
  from gettok_identifier_token [OF a, of "initial_state ''  def foo''"]
    gettok_identifier_token [OF b, of "initial_state ''extern2(x)''"]
  show ?thesis
    unfolding i [symmetric] by (simp add: lexer_at_def)
qed


subsection \<open>Whitespace and comments between tokens\<close>

text \<open>The characters in front of the lexer: its lookahead and the unread input.\<close>

definition remaining :: "state \<Rightarrow> string" where
  "remaining s = (if LastChar s = EOF then [] else char_of (LastChar s) # stdin s)"

text \<open>
  One call of \<open>gettok\<close> as a function of the characters in front of the lexer: the token
  with its payload, and the characters left.
\<close>

definition gettok_stream :: "string \<Rightarrow> ((int \<times> string option \<times> rat option) \<times> string) option" where
  "gettok_stream r =
     map_option (\<lambda>(tok, s'). (token_payload tok s', remaining s'))
       (gettok (lexer_at r (initial_state [])))"

text \<open>
  Filler: whitespace characters and line comments, each comment running from \<open>#\<close> up to
  and including the next newline or carriage return.
\<close>

function is_filler :: "string \<Rightarrow> bool" where
  "is_filler [] = True"
| "is_filler (c # cs) =
     (if is_space c then is_filler cs
      else if c = CHR ''#'' then
        (case dropWhile in_comment cs of
           [] \<Rightarrow> False
         | nl # rest \<Rightarrow> is_filler rest)
      else False)"
  by pat_completeness auto
termination
proof (relation "measure length", goal_cases)
  case 1
  show ?case by simp
next
  case (2 c cs)
  then show ?case by simp
next
  case (3 c cs nl rest)
  from length_dropWhile_le [of in_comment cs] 3(3) have "length rest < length cs"
    by simp
  then show ?case by simp
qed

text \<open>
  What is in front of the lexer after each token it returns, up to the end of input:
  the places of the input where one token has ended and the next has not begun.
\<close>

function rests :: "state \<Rightarrow> string list" where
  "rests s =
     (case gettok s of
        None \<Rightarrow> []
      | Some (tok, s') \<Rightarrow> if tok = tok_eof then [] else remaining s' # rests s')"
  by pat_completeness auto
termination
  by (relation "measure unread") (auto dest!: gettok_unread)

declare rests.simps [simp del]

lemma remaining_lexer_at [simp]: "remaining (lexer_at r s) = r"
  by (cases r) (simp_all add: remaining_def)

lemma remaining_update [simp]:
  "remaining (s\<lparr>IdentifierStr := i\<rparr>) = remaining s"
  "remaining (s\<lparr>NumVal := v\<rparr>) = remaining s"
  by (simp_all add: remaining_def)

lemma lexer_view_lexer_at: "lexer_view (lexer_at r s) = lexer_view (lexer_at r s')"
  by (simp add: lexer_view_def lexer_at_def)

lemma getchar_value_lexer_at: "getchar_value (LastChar (lexer_at r s))"
proof (cases r)
  case Nil
  then show ?thesis by (simp add: getchar_value_def)
next
  case (Cons c cs)
  with of_char_int_range [of c] show ?thesis by (simp add: getchar_value_def)
qed

lemma token_payload_char:
  "token_payload (of_char c) s = (of_char c, None, None)"
  using of_char_int_range [of c] by (auto simp: token_payload_def)

lemma token_payload_simps:
  "token_payload tok_eof s = (tok_eof, None, None)"
  "token_payload tok_number s = (tok_number, None, Some (NumVal s))"
  "token_payload tok_def s = (tok_def, Some (IdentifierStr s), None)"
  "token_payload tok_extern s = (tok_extern, Some (IdentifierStr s), None)"
  "token_payload tok_identifier s = (tok_identifier, Some (IdentifierStr s), None)"
  by (simp_all add: token_payload_def)

lemma gettok_stream_base:
  "map_option (\<lambda>(tok, s'). (token_payload tok s', remaining s')) (gettok (lexer_at r s))
     = gettok_stream r"
proof -
  from gettok_view [OF getchar_value_lexer_at lexer_view_lexer_at, of r s "initial_state []"]
  have "gettok_result (lexer_at r s) = gettok_result (lexer_at r (initial_state []))" .
  moreover have "remaining s' = (if fst (lexer_view s') = EOF then []
      else char_of (fst (lexer_view s')) # snd (lexer_view s'))" for s'
    by (simp add: remaining_def lexer_view_def)
  ultimately show ?thesis
    unfolding gettok_stream_def gettok_result_def
    by (cases "gettok (lexer_at r s)"; cases "gettok (lexer_at r (initial_state []))")
      (auto simp: remaining_def lexer_view_def)
qed

lemma gettok_stream_eq:
  "gettok_stream r =
     (case dropWhile is_space r of
        [] \<Rightarrow> Some ((tok_eof, None, None), [])
      | c # cs \<Rightarrow>
          if isalpha (of_char c) then
            Some ((if c # takeWhile is_alnum cs = ''def'' then tok_def
                   else if c # takeWhile is_alnum cs = ''extern'' then tok_extern
                   else tok_identifier,
                   Some (c # takeWhile is_alnum cs), None),
                  dropWhile is_alnum cs)
          else if is_numchar c then
            (case stod (c # takeWhile is_numchar cs) of
               None \<Rightarrow> None
             | Some v \<Rightarrow> Some ((tok_number, None, Some v), dropWhile is_numchar cs))
          else if c = CHR ''#'' then
            (if dropWhile in_comment cs \<noteq> [] then gettok_stream (dropWhile in_comment cs)
             else Some ((tok_eof, None, None), []))
          else Some ((of_char c, None, None), cs))"
proof -
  define d where "d = dropWhile is_space r"
  note g = gettok_lexer_at [of r "initial_state []", folded d_def]
  show ?thesis
    unfolding d_def [symmetric]
  proof (cases d)
    case Nil
    with g show "gettok_stream r =
     (case d of
        [] \<Rightarrow> Some ((tok_eof, None, None), [])
      | c # cs \<Rightarrow>
          if isalpha (of_char c) then
            Some ((if c # takeWhile is_alnum cs = ''def'' then tok_def
                   else if c # takeWhile is_alnum cs = ''extern'' then tok_extern
                   else tok_identifier,
                   Some (c # takeWhile is_alnum cs), None),
                  dropWhile is_alnum cs)
          else if is_numchar c then
            (case stod (c # takeWhile is_numchar cs) of
               None \<Rightarrow> None
             | Some v \<Rightarrow> Some ((tok_number, None, Some v), dropWhile is_numchar cs))
          else if c = CHR ''#'' then
            (if dropWhile in_comment cs \<noteq> [] then gettok_stream (dropWhile in_comment cs)
             else Some ((tok_eof, None, None), []))
          else Some ((of_char c, None, None), cs))"
      by (simp add: gettok_stream_def token_payload_simps)
  next
    case (Cons c cs)
    define i where "i = c # takeWhile is_alnum cs"
    consider (ident) "isalpha (of_char c)"
      | (num) "\<not> isalpha (of_char c)" "is_numchar c"
      | (comment) "\<not> isalpha (of_char c)" "\<not> is_numchar c" "c = CHR ''#''"
      | (other) "\<not> isalpha (of_char c)" "\<not> is_numchar c" "c \<noteq> CHR ''#''"
      by blast
    then show "gettok_stream r =
     (case d of
        [] \<Rightarrow> Some ((tok_eof, None, None), [])
      | c # cs \<Rightarrow>
          if isalpha (of_char c) then
            Some ((if c # takeWhile is_alnum cs = ''def'' then tok_def
                   else if c # takeWhile is_alnum cs = ''extern'' then tok_extern
                   else tok_identifier,
                   Some (c # takeWhile is_alnum cs), None),
                  dropWhile is_alnum cs)
          else if is_numchar c then
            (case stod (c # takeWhile is_numchar cs) of
               None \<Rightarrow> None
             | Some v \<Rightarrow> Some ((tok_number, None, Some v), dropWhile is_numchar cs))
          else if c = CHR ''#'' then
            (if dropWhile in_comment cs \<noteq> [] then gettok_stream (dropWhile in_comment cs)
             else Some ((tok_eof, None, None), []))
          else Some ((of_char c, None, None), cs))"
    proof cases
      case ident
      with g Cons have "gettok (lexer_at r (initial_state [])) =
        Some (if i = ''def'' then tok_def else if i = ''extern'' then tok_extern
              else tok_identifier,
              lexer_at (dropWhile is_alnum cs) ((initial_state [])\<lparr>IdentifierStr := i\<rparr>))"
        unfolding i_def by simp
      then have "gettok_stream r =
        Some ((if i = ''def'' then tok_def else if i = ''extern'' then tok_extern
              else tok_identifier, Some i, None), dropWhile is_alnum cs)"
        by (simp add: gettok_stream_def token_payload_def)
      with ident Cons show ?thesis unfolding i_def by simp
    next
      case num
      with g Cons show ?thesis
        by (simp add: gettok_stream_def token_payload_simps split: option.splits)
    next
      case comment
      with g Cons show ?thesis
        by (simp add: gettok_stream_def token_payload_simps)
    next
      case other
      with g Cons show ?thesis
        by (simp add: gettok_stream_def token_payload_char)
    qed
  qed
qed

lemma gettok_stream_cases:
  assumes "gettok_stream r = Some (tp, r1)"
  obtains (eof) "dropWhile is_space r = []" "tp = (tok_eof, None, None)" "r1 = []"
    | (ident) c cs where "dropWhile is_space r = c # cs" "isalpha (of_char c)"
        "tp = (if c # takeWhile is_alnum cs = ''def'' then tok_def
               else if c # takeWhile is_alnum cs = ''extern'' then tok_extern
               else tok_identifier, Some (c # takeWhile is_alnum cs), None)"
        "r1 = dropWhile is_alnum cs"
    | (num) c cs v where "dropWhile is_space r = c # cs" "\<not> isalpha (of_char c)" "is_numchar c"
        "stod (c # takeWhile is_numchar cs) = Some v"
        "tp = (tok_number, None, Some v)" "r1 = dropWhile is_numchar cs"
    | (comment) cs where "dropWhile is_space r = CHR ''#'' # cs"
        "dropWhile in_comment cs \<noteq> []"
        "gettok_stream (dropWhile in_comment cs) = Some (tp, r1)"
    | (comment_eof) cs where "dropWhile is_space r = CHR ''#'' # cs"
        "dropWhile in_comment cs = []" "tp = (tok_eof, None, None)" "r1 = []"
    | (other) c cs where "dropWhile is_space r = c # cs" "\<not> isalpha (of_char c)"
        "\<not> is_numchar c" "c \<noteq> CHR ''#''" "tp = (of_char c, None, None)" "r1 = cs"
proof (cases "dropWhile is_space r")
  case Nil
  with assms have "tp = (tok_eof, None, None)" "r1 = []"
    by (simp_all add: gettok_stream_eq [of r])
  with Nil show ?thesis by (rule eof)
next
  case (Cons c cs)
  note g = assms [unfolded gettok_stream_eq [of r] Cons list.case]
  consider (a) "isalpha (of_char c)"
    | (b) "\<not> isalpha (of_char c)" "is_numchar c"
    | (c) "\<not> isalpha (of_char c)" "\<not> is_numchar c" "c = CHR ''#''"
    | (d) "\<not> isalpha (of_char c)" "\<not> is_numchar c" "c \<noteq> CHR ''#''"
    by blast
  then show ?thesis
  proof cases
    case a
    with g have "tp = (if c # takeWhile is_alnum cs = ''def'' then tok_def
               else if c # takeWhile is_alnum cs = ''extern'' then tok_extern
               else tok_identifier, Some (c # takeWhile is_alnum cs), None)"
        "r1 = dropWhile is_alnum cs"
      by (simp_all only: if_True option.inject prod.inject)
    with Cons a show ?thesis by (rule ident)
  next
    case b
    with g obtain v where "stod (c # takeWhile is_numchar cs) = Some v"
      "tp = (tok_number, None, Some v)" "r1 = dropWhile is_numchar cs"
      by (cases "stod (c # takeWhile is_numchar cs)") auto
    with Cons b show ?thesis by (rule num)
  next
    case c
    from Cons c(3) have D: "dropWhile is_space r = CHR ''#'' # cs" by (simp only:)
    show ?thesis
    proof (cases "dropWhile in_comment cs = []")
      case True
      with g c have "tp = (tok_eof, None, None)" "r1 = []" by simp_all
      with D True show ?thesis by (rule comment_eof)
    next
      case False
      with g c have "gettok_stream (dropWhile in_comment cs) = Some (tp, r1)" by simp
      with D False show ?thesis by (rule comment)
    qed
  next
    case d
    with g have "tp = (of_char c, None, None)" "r1 = cs" by simp_all
    with Cons d show ?thesis by (rule other)
  qed
qed

lemma dropWhile_split: "\<exists>p. r = p @ dropWhile P r"
  by (metis takeWhile_dropWhile_id)

lemma gettok_stream_suffix:
  "gettok_stream r = Some (tp, r1) \<Longrightarrow> \<exists>p. r = p @ r1 \<and> (fst tp \<noteq> tok_eof \<longrightarrow> p \<noteq> [])"
proof (induction r arbitrary: tp r1 rule: length_induct)
  case (1 r)
  obtain ws where ws: "r = ws @ dropWhile is_space r" using dropWhile_split by blast
  from "1.prems" show ?case
  proof (cases rule: gettok_stream_cases)
    case eof
    with ws show ?thesis by simp
  next
    case (ident c cs)
    obtain p where "cs = p @ dropWhile is_alnum cs" using dropWhile_split by blast
    with ws ident have "r = (ws @ c # p) @ r1" by simp
    then show ?thesis by blast
  next
    case (num c cs v)
    obtain p where "cs = p @ dropWhile is_numchar cs" using dropWhile_split by blast
    with ws num have "r = (ws @ c # p) @ r1" by simp
    then show ?thesis by blast
  next
    case (comment cs)
    obtain p where p: "cs = p @ dropWhile in_comment cs" using dropWhile_split by blast
    with ws comment have r: "r = (ws @ CHR ''#'' # p) @ dropWhile in_comment cs" by simp
    then have "length (dropWhile in_comment cs) < length r"
      by (metis length_append length_greater_0_conv less_add_same_cancel2 append_is_Nil_conv
          list.distinct(1))
    with "1.IH" comment(3) obtain q where "dropWhile in_comment cs = q @ r1" by blast
    with r have "r = (ws @ CHR ''#'' # p @ q) @ r1" by simp
    then show ?thesis by blast
  next
    case (comment_eof cs)
    with ws show ?thesis by simp
  next
    case (other c cs)
    with ws have "r = (ws @ [c]) @ r1" by simp
    then show ?thesis by blast
  qed
qed

lemma dropWhile_takeWhile_append:
  assumes "dropWhile P (x @ v) = x1 @ v" and "x1 \<noteq> [] \<or> w = [] \<or> \<not> P (hd w)"
  shows "dropWhile P (x @ w) = x1 @ w \<and> takeWhile P (x @ w) = takeWhile P (x @ v)"
  using assms
proof (induction x)
  case Nil
  from Nil(1) have "length (x1 @ v) \<le> length v"
    using length_dropWhile_le [of P v] by simp
  then have x1: "x1 = []" by simp
  with Nil(1) have "dropWhile P v = v" by simp
  then have tv: "takeWhile P v = []"
    by (metis append_self_conv2 same_append_eq takeWhile_dropWhile_id)
  from Nil(2) x1 have "w = [] \<or> \<not> P (hd w)" by simp
  then have "dropWhile P w = w" "takeWhile P w = []" by (cases w; simp)+
  with x1 tv show ?case by simp
next
  case (Cons a x)
  show ?case
  proof (cases "P a")
    case True
    with Cons show ?thesis by simp
  next
    case False
    with Cons.prems(1) have "x1 = a # x" by simp
    with False show ?thesis by simp
  qed
qed

lemma is_filler_hd: "is_filler f \<Longrightarrow> f \<noteq> [] \<Longrightarrow> is_space (hd f) \<or> hd f = CHR ''#''"
  by (cases f) (auto split: if_splits)

lemma gettok_stream_skip_space: "is_space c \<Longrightarrow> gettok_stream (c # r) = gettok_stream r"
  by (simp add: gettok_stream_eq [of "c # r"] gettok_stream_eq [of r])

lemma hash_not_space: "\<not> is_space CHR ''#''" "\<not> isalpha (of_char CHR ''#'')"
  "\<not> is_numchar CHR ''#''"
  by (simp_all add: isspace_def isalpha_def isdigit_def)

lemma not_in_comment_space: "\<not> in_comment c \<Longrightarrow> is_space c"
  by (auto simp: isspace_def)

lemma is_filler_hash:
  "is_filler (CHR ''#'' # cs) =
     (case dropWhile in_comment cs of [] \<Rightarrow> False | nl # rest \<Rightarrow> is_filler rest)"
  by (simp add: isspace_def)

lemma gettok_stream_filler: "is_filler f \<Longrightarrow> gettok_stream (f @ v) = gettok_stream v"
proof (induction f rule: length_induct)
  case (1 f)
  show ?case
  proof (cases f)
    case Nil
    then show ?thesis by simp
  next
    case (Cons c cs)
    show ?thesis
    proof (cases "is_space c")
      case True
      with "1.prems" Cons have "is_filler cs" by simp
      with "1.IH" Cons have "gettok_stream (cs @ v) = gettok_stream v" by simp
      with True Cons show ?thesis by (simp add: gettok_stream_skip_space)
    next
      case False
      with "1.prems" Cons have c: "c = CHR ''#''"
        by (auto split: if_splits)
      define dc where "dc = dropWhile in_comment cs"
      from "1.prems" Cons c have "case dc of [] \<Rightarrow> False | nl # rest \<Rightarrow> is_filler rest"
        unfolding dc_def by (simp only: is_filler_hash)
      then obtain nl rest where "dc = nl # rest" and f: "is_filler rest"
        by (cases dc) simp_all
      then have d: "dropWhile in_comment cs = nl # rest" unfolding dc_def by (simp only:)
      from d have "dropWhile in_comment (cs @ []) = (nl # rest) @ []"
        by (simp only: append_Nil2)
      from dropWhile_takeWhile_append [OF this, of v]
      have dv: "dropWhile in_comment (cs @ v) = nl # rest @ v" by simp
      from hd_dropWhile [of in_comment cs] have "\<not> in_comment nl" unfolding d by simp
      then have nl: "is_space nl" by (rule not_in_comment_space)
      have "length (dropWhile in_comment cs) \<le> length cs" by (rule length_dropWhile_le)
      then have "length (nl # rest) \<le> length cs" unfolding d .
      then have "length rest < length f" unfolding Cons by simp
      with "1.IH" f have "gettok_stream (rest @ v) = gettok_stream v" by blast
      with nl have e: "gettok_stream (nl # rest @ v) = gettok_stream v"
        by (simp add: gettok_stream_skip_space)
      have "gettok_stream (CHR ''#'' # cs @ v) =
        (if dropWhile in_comment (cs @ v) \<noteq> [] then gettok_stream (dropWhile in_comment (cs @ v))
         else Some ((tok_eof, None, None), []))"
        by (simp add: gettok_stream_eq [of "CHR ''#'' # cs @ v"] isspace_def isalpha_def
            isdigit_def)
      also have "\<dots> = gettok_stream (nl # rest @ v)" unfolding dv by simp
      finally show ?thesis unfolding Cons c e by simp
    qed
  qed
qed

lemma gettok_lexer_at_form:
  "gettok (lexer_at r s) = Some (tok, s1) \<Longrightarrow> \<exists>r1 s'. s1 = lexer_at r1 s'"
proof (induction r arbitrary: tok s1 rule: length_induct)
  case (1 r)
  note g = "1.prems" [unfolded gettok_lexer_at [of r s]]
  show ?case
  proof (cases "dropWhile is_space r")
    case Nil
    with g show ?thesis by (simp only: list.case) blast
  next
    case (Cons c cs)
    note g' = g [unfolded Cons list.case]
    consider (a) "isalpha (of_char c)"
      | (b) "\<not> isalpha (of_char c)" "is_numchar c"
      | (c) "\<not> isalpha (of_char c)" "\<not> is_numchar c" "c = CHR ''#''"
      | (d) "\<not> isalpha (of_char c)" "\<not> is_numchar c" "c \<noteq> CHR ''#''"
      by blast
    then show ?thesis
    proof cases
      case a
      from g' [unfolded if_P [OF a]] show ?thesis by (simp only: option.inject prod.inject) blast
    next
      case b
      note e = g' [unfolded if_not_P [OF b(1)] if_P [OF b(2)]]
      show ?thesis
      proof (cases "stod (c # takeWhile is_numchar cs)")
        case None
        with e show ?thesis by simp
      next
        case (Some v)
        with e have "s1 = lexer_at (dropWhile is_numchar cs) (s\<lparr>NumVal := v\<rparr>)" by simp
        then show ?thesis by blast
      qed
    next
      case c
      note e = g' [unfolded if_not_P [OF c(1)] if_not_P [OF c(2)] if_P [OF c(3)]]
      show ?thesis
      proof (cases "dropWhile in_comment cs = []")
        case True
        then have "\<not> dropWhile in_comment cs \<noteq> []" by (simp only: not_not)
        from e [unfolded if_not_P [OF this]] show ?thesis
          by (simp only: option.inject prod.inject) blast
      next
        case False
        from e [unfolded if_P [OF False]]
        have r: "gettok (lexer_at (dropWhile in_comment cs) s) = Some (tok, s1)" .
        obtain ws where "r = ws @ dropWhile is_space r" using dropWhile_split by blast
        then have "r = ws @ c # cs" unfolding Cons .
        moreover have "length (dropWhile in_comment cs) \<le> length cs"
          by (rule length_dropWhile_le)
        ultimately have "length (dropWhile in_comment cs) < length r" by simp
        with "1.IH" r show ?thesis by blast
      qed
    next
      case d
      from g' [unfolded if_not_P [OF d(1)] if_not_P [OF d(2)] if_not_P [OF d(3)]]
      show ?thesis by (simp only: option.inject prod.inject) blast
    qed
  qed
qed

lemma gettok_lexer_at_result:
  assumes "gettok (lexer_at r s) = Some (tok, s1)"
  shows "gettok_stream r = Some (token_payload tok s1, remaining s1)"
    and "lexer_view s1 = lexer_view (lexer_at (remaining s1) s2)"
    and "getchar_value (LastChar s1)"
proof -
  from gettok_stream_base [of r s] assms
  show "gettok_stream r = Some (token_payload tok s1, remaining s1)" by simp
  from gettok_lexer_at_form [OF assms] obtain r1 s' where "s1 = lexer_at r1 s'" by blast
  then show "lexer_view s1 = lexer_view (lexer_at (remaining s1) s2)"
    by (simp add: lexer_view_lexer_at [of r1 s' s2])
  from gettok_value [OF getchar_value_lexer_at assms]
  show "getchar_value (LastChar s1)" by simp
qed

lemma fst_token_payload [simp]: "fst (token_payload tok s) = tok"
  by (simp add: token_payload_def)

lemma tokens_lexer_at:
  "tokens (lexer_at r s) =
     (case gettok_stream r of
        None \<Rightarrow> ([], False)
      | Some (tp, r1) \<Rightarrow>
          if fst tp = tok_eof then ([tp], True)
          else (case tokens (lexer_at r1 s) of (toks, ended) \<Rightarrow> (tp # toks, ended)))"
proof (cases "gettok (lexer_at r s)")
  case None
  with gettok_stream_base [of r s] have "gettok_stream r = None" by simp
  with None show ?thesis by (simp add: tokens.simps [of "lexer_at r s"])
next
  case (Some p)
  obtain tok s1 where p: "p = (tok, s1)" by (cases p)
  with Some have g: "gettok (lexer_at r s) = Some (tok, s1)" by simp
  note r = gettok_lexer_at_result [OF g]
  from tokens_view [OF r(3) r(2)] have "tokens s1 = tokens (lexer_at (remaining s1) s)" .
  with g r(1) show ?thesis by (simp add: tokens.simps [of "lexer_at r s"])
qed

lemma rests_lexer_at_Nil:
  "gettok_stream r = None \<Longrightarrow> rests (lexer_at r s) = []"
  using gettok_stream_base [of r s]
  by (cases "gettok (lexer_at r s)") (simp_all add: rests.simps [of "lexer_at r s"])

lemma rests_view: "getchar_value (LastChar s1) \<Longrightarrow> lexer_view s1 = lexer_view s2 \<Longrightarrow> rests s1 = rests s2"
proof (induction s1 arbitrary: s2 rule: rests.induct)
  case (1 s)
  from gettok_view [OF "1.prems"] have r: "gettok_result s = gettok_result s2" .
  show ?case
  proof (cases "gettok s")
    case None
    with r have "gettok s2 = None" by (simp add: gettok_result_def)
    with None show ?thesis by (simp add: rests.simps [of s] rests.simps [of s2])
  next
    case (Some p)
    obtain tok s' where p: "p = (tok, s')" by (cases p)
    from Some p r obtain p2 where g2': "gettok s2 = Some p2"
      by (cases "gettok s2") (simp_all add: gettok_result_def)
    obtain tok2 s2' where p2: "p2 = (tok2, s2')" by (cases p2)
    from r Some p g2' p2 have tp: "token_payload tok2 s2' = token_payload tok s'"
      and lv: "lexer_view s' = lexer_view s2'"
      by (simp_all add: gettok_result_def)
    from tp have "tok2 = tok" by (simp add: token_payload_def)
    with g2' p2 have g2: "gettok s2 = Some (tok, s2')" by simp
    from Some p have gs: "gettok s = Some (tok, s')" by simp
    from gettok_value [OF "1.prems"(1) gs] have gv: "getchar_value (LastChar s')" by simp
    from lv have rm: "remaining s' = remaining s2'" by (simp add: remaining_def lexer_view_def)
    show ?thesis
    proof (cases "tok = tok_eof")
      case True
      with gs g2 show ?thesis by (simp add: rests.simps [of s] rests.simps [of s2])
    next
      case False
      from "1.IH" [OF Some p [symmetric] False gv lv] gs g2 rm False show ?thesis
        by (simp add: rests.simps [of s] rests.simps [of s2])
    qed
  qed
qed

lemma rests_lexer_at:
  "rests (lexer_at r s) =
     (case gettok_stream r of
        None \<Rightarrow> []
      | Some (tp, r1) \<Rightarrow> if fst tp = tok_eof then [] else r1 # rests (lexer_at r1 s))"
proof (cases "gettok (lexer_at r s)")
  case None
  with gettok_stream_base [of r s] have "gettok_stream r = None" by simp
  with None show ?thesis by (simp add: rests.simps [of "lexer_at r s"])
next
  case (Some p)
  obtain tok s1 where p: "p = (tok, s1)" by (cases p)
  with Some have g: "gettok (lexer_at r s) = Some (tok, s1)" by simp
  note r = gettok_lexer_at_result [OF g]
  from rests_view [OF r(3) r(2)] have "rests s1 = rests (lexer_at (remaining s1) s)" .
  with g r(1) show ?thesis by (simp add: rests.simps [of "lexer_at r s"])
qed

lemma gettok_stream_ident:
  assumes "dropWhile is_space r = c # cs" and "isalpha (of_char c)"
  shows "gettok_stream r =
     Some ((if c # takeWhile is_alnum cs = ''def'' then tok_def
            else if c # takeWhile is_alnum cs = ''extern'' then tok_extern
            else tok_identifier, Some (c # takeWhile is_alnum cs), None),
           dropWhile is_alnum cs)"
  unfolding gettok_stream_eq [of r] assms(1) list.case if_P [OF assms(2)] ..

lemma gettok_stream_num:
  assumes "dropWhile is_space r = c # cs" and "\<not> isalpha (of_char c)" and "is_numchar c"
  shows "gettok_stream r =
     (case stod (c # takeWhile is_numchar cs) of
        None \<Rightarrow> None
      | Some v \<Rightarrow> Some ((tok_number, None, Some v), dropWhile is_numchar cs))"
  unfolding gettok_stream_eq [of r] assms(1) list.case if_not_P [OF assms(2)] if_P [OF assms(3)] ..

lemma gettok_stream_comment:
  assumes "dropWhile is_space r = CHR ''#'' # cs" and "dropWhile in_comment cs \<noteq> []"
  shows "gettok_stream r = gettok_stream (dropWhile in_comment cs)"
  unfolding gettok_stream_eq [of r] assms(1) list.case if_not_P [OF hash_not_space(2)]
    if_not_P [OF hash_not_space(3)] if_P [OF assms(2)]
  by simp

lemma gettok_stream_other:
  assumes "dropWhile is_space r = c # cs" and "\<not> isalpha (of_char c)" and "\<not> is_numchar c"
    and "c \<noteq> CHR ''#''"
  shows "gettok_stream r = Some ((of_char c, None, None), cs)"
  unfolding gettok_stream_eq [of r] assms(1) list.case if_not_P [OF assms(2)]
    if_not_P [OF assms(3)] if_not_P [OF assms(4)] ..

lemma is_space_not_token_char: "is_space c \<Longrightarrow> \<not> is_alnum c \<and> \<not> is_numchar c"
  by (auto simp: isspace_def isalnum_def isalpha_def isdigit_def)

lemma hash_not_token_char: "\<not> is_alnum CHR ''#'' \<and> \<not> is_numchar CHR ''#''"
  by (simp add: isalnum_def isalpha_def isdigit_def)

text \<open>
  A call of \<open>gettok\<close> that ends at or before a place of the input does the same when what
  follows that place is replaced by something that starts like filler.
\<close>

lemma gettok_stream_local:
  assumes "gettok_stream (x @ v) = Some (tp, x1 @ v)" and "fst tp \<noteq> tok_eof"
    and "w = [] \<or> is_space (hd w) \<or> hd w = CHR ''#''"
  shows "gettok_stream (x @ w) = Some (tp, x1 @ w)"
  using assms(1)
proof (induction x rule: length_induct)
  case (1 x)
  from assms(3) have wa: "w = [] \<or> \<not> is_alnum (hd w)" and wn: "w = [] \<or> \<not> is_numchar (hd w)"
    using is_space_not_token_char [of "hd w"] hash_not_token_char by auto
  from "1.prems" show ?case
  proof (cases rule: gettok_stream_cases)
    case eof
    with assms(2) show ?thesis by simp
  next
    case (ident c cs)
    define tk where "tk = takeWhile is_alnum cs"
    have "tk @ dropWhile is_alnum cs = cs" unfolding tk_def by (rule takeWhile_dropWhile_id)
    then have cs: "cs = (tk @ x1) @ v" unfolding ident(4) [symmetric] by simp
    have D: "dropWhile is_space (x @ v) = (c # tk @ x1) @ v"
      unfolding ident(1) by (simp add: cs)
    have "c # tk @ x1 \<noteq> [] \<or> w = [] \<or> \<not> is_space (hd w)" by simp
    from dropWhile_takeWhile_append [OF D this]
    have Dw: "dropWhile is_space (x @ w) = c # (tk @ x1) @ w" by simp
    have R: "dropWhile is_alnum ((tk @ x1) @ v) = x1 @ v"
      unfolding cs [symmetric] ident(4) [symmetric] ..
    have T: "takeWhile is_alnum ((tk @ x1) @ v) = tk"
      unfolding cs [symmetric] by (simp only: tk_def)
    from wa have "x1 \<noteq> [] \<or> w = [] \<or> \<not> is_alnum (hd w)" by blast
    from dropWhile_takeWhile_append [OF R this]
    have Rw: "dropWhile is_alnum ((tk @ x1) @ w) = x1 @ w"
      and Tw: "takeWhile is_alnum ((tk @ x1) @ w) = tk"
      unfolding T by simp_all
    have "gettok_stream (x @ w) =
      Some ((if c # tk = ''def'' then tok_def else if c # tk = ''extern'' then tok_extern
             else tok_identifier, Some (c # tk), None), x1 @ w)"
      using gettok_stream_ident [OF Dw ident(2)] unfolding Rw Tw .
    moreover have "tp = (if c # tk = ''def'' then tok_def else if c # tk = ''extern'' then tok_extern
             else tok_identifier, Some (c # tk), None)"
      using ident(3) unfolding tk_def .
    ultimately show ?thesis by (simp only:)
  next
    case (num c cs n)
    define tk where "tk = takeWhile is_numchar cs"
    have "tk @ dropWhile is_numchar cs = cs" unfolding tk_def by (rule takeWhile_dropWhile_id)
    then have cs: "cs = (tk @ x1) @ v" unfolding num(6) [symmetric] by simp
    have D: "dropWhile is_space (x @ v) = (c # tk @ x1) @ v"
      unfolding num(1) by (simp add: cs)
    have "c # tk @ x1 \<noteq> [] \<or> w = [] \<or> \<not> is_space (hd w)" by simp
    from dropWhile_takeWhile_append [OF D this]
    have Dw: "dropWhile is_space (x @ w) = c # (tk @ x1) @ w" by simp
    have R: "dropWhile is_numchar ((tk @ x1) @ v) = x1 @ v"
      unfolding cs [symmetric] num(6) [symmetric] ..
    have T: "takeWhile is_numchar ((tk @ x1) @ v) = tk"
      unfolding cs [symmetric] by (simp only: tk_def)
    from wn have "x1 \<noteq> [] \<or> w = [] \<or> \<not> is_numchar (hd w)" by blast
    from dropWhile_takeWhile_append [OF R this]
    have Rw: "dropWhile is_numchar ((tk @ x1) @ w) = x1 @ w"
      and Tw: "takeWhile is_numchar ((tk @ x1) @ w) = tk"
      unfolding T by simp_all
    have "gettok_stream (x @ w) =
      (case stod (c # tk) of
         None \<Rightarrow> None
       | Some v \<Rightarrow> Some ((tok_number, None, Some v), x1 @ w))"
      using gettok_stream_num [OF Dw num(2) num(3)] unfolding Rw Tw .
    moreover have "stod (c # tk) = Some n" using num(4) unfolding tk_def .
    ultimately show ?thesis unfolding num(5) by (simp only: option.case)
  next
    case (comment cs)
    define r2 where "r2 = dropWhile in_comment cs"
    define tk where "tk = takeWhile in_comment cs"
    from comment(3) have g2: "gettok_stream r2 = Some (tp, x1 @ v)" unfolding r2_def .
    from gettok_stream_suffix [OF g2] assms(2) obtain q where q: "r2 = (q @ x1) @ v" "q \<noteq> []"
      by auto
    have "tk @ r2 = cs" unfolding tk_def r2_def by (rule takeWhile_dropWhile_id)
    with q have cs: "cs = (tk @ q @ x1) @ v" by simp
    have D: "dropWhile is_space (x @ v) = (CHR ''#'' # tk @ q @ x1) @ v"
      unfolding comment(1) by (simp add: cs)
    have "CHR ''#'' # tk @ q @ x1 \<noteq> [] \<or> w = [] \<or> \<not> is_space (hd w)" by simp
    from dropWhile_takeWhile_append [OF D this]
    have Dw: "dropWhile is_space (x @ w) = CHR ''#'' # (tk @ q @ x1) @ w" by simp
    have R: "dropWhile in_comment ((tk @ q @ x1) @ v) = (q @ x1) @ v"
      unfolding cs [symmetric] q(1) [symmetric] r2_def ..
    from q(2) have "q @ x1 \<noteq> [] \<or> w = [] \<or> \<not> in_comment (hd w)" by simp
    from dropWhile_takeWhile_append [OF R this]
    have Rw: "dropWhile in_comment ((tk @ q @ x1) @ w) = (q @ x1) @ w" by simp
    with q(2) have ne: "dropWhile in_comment ((tk @ q @ x1) @ w) \<noteq> []" by simp
    obtain ws where "x @ v = ws @ dropWhile is_space (x @ v)" using dropWhile_split by blast
    then have "x @ v = (ws @ CHR ''#'' # tk @ q @ x1) @ v" unfolding D by simp
    then have "x = ws @ CHR ''#'' # tk @ q @ x1" by (rule append_same_eq [THEN iffD1])
    then have "length (q @ x1) < length x" by simp
    moreover from g2 have "gettok_stream ((q @ x1) @ v) = Some (tp, x1 @ v)" unfolding q(1) .
    ultimately have "gettok_stream ((q @ x1) @ w) = Some (tp, x1 @ w)"
      using "1.IH" by blast
    with gettok_stream_comment [OF Dw ne] show ?thesis unfolding Rw by simp
  next
    case (comment_eof cs)
    with assms(2) show ?thesis by simp
  next
    case (other c cs)
    have D: "dropWhile is_space (x @ v) = (c # x1) @ v"
      unfolding other(1) other(6) [symmetric] by simp
    have "c # x1 \<noteq> [] \<or> w = [] \<or> \<not> is_space (hd w)" by simp
    from dropWhile_takeWhile_append [OF D this]
    have Dw: "dropWhile is_space (x @ w) = c # x1 @ w" by simp
    from gettok_stream_other [OF Dw other(2) other(3) other(4)] show ?thesis
      unfolding other(5) .
  qed
qed

lemma tokens_lexer_at_base: "tokens (lexer_at r s) = tokens (lexer_at r s')"
  using tokens_view [OF getchar_value_lexer_at lexer_view_lexer_at] .

lemma tokens_gettok_stream_cong:
  "gettok_stream r = gettok_stream r' \<Longrightarrow> tokens (lexer_at r s) = tokens (lexer_at r' s)"
  by (simp add: tokens_lexer_at [of r s] tokens_lexer_at [of r' s])

lemma rests_suffix:
  "y \<in> set (rests (lexer_at r s)) \<Longrightarrow> \<exists>p. r = p @ y \<and> p \<noteq> []"
proof (induction r rule: length_induct)
  case (1 r)
  from "1.prems" obtain tp r1 where g: "gettok_stream r = Some (tp, r1)"
    and ne: "fst tp \<noteq> tok_eof" and y: "y = r1 \<or> y \<in> set (rests (lexer_at r1 s))"
    by (cases "gettok_stream r") (auto simp: rests_lexer_at [of r s] split: if_splits)
  from gettok_stream_suffix [OF g] ne obtain p where p: "r = p @ r1" "p \<noteq> []" by auto
  from y show ?case
  proof
    assume "y = r1"
    with p show ?thesis by blast
  next
    assume a: "y \<in> set (rests (lexer_at r1 s))"
    from p have "length r1 < length r" by simp
    with "1.IH" a obtain q where "r1 = q @ y" by blast
    with p have "r = (p @ q) @ y" "p @ q \<noteq> []" by simp_all
    then show ?thesis by blast
  qed
qed

text \<open>
  Up to a place where a token ends, the tokens do not depend on what follows the place,
  as long as it starts like filler.
\<close>

lemma tokens_cut:
  assumes "w = [] \<or> is_space (hd w) \<or> hd w = CHR ''#''"
  shows "v \<in> set (rests (lexer_at (x @ v) s)) \<Longrightarrow>
    \<exists>ts. tokens (lexer_at (x @ v) s)
            = (ts @ fst (tokens (lexer_at v s)), snd (tokens (lexer_at v s))) \<and>
          tokens (lexer_at (x @ w) s)
            = (ts @ fst (tokens (lexer_at w s)), snd (tokens (lexer_at w s)))"
proof (induction x rule: length_induct)
  case (1 x)
  from "1.prems" obtain tp r1 where g: "gettok_stream (x @ v) = Some (tp, r1)"
    and ne: "fst tp \<noteq> tok_eof" and y: "v = r1 \<or> v \<in> set (rests (lexer_at r1 s))"
    by (cases "gettok_stream (x @ v)") (auto simp: rests_lexer_at [of "x @ v" s] split: if_splits)
  from y obtain x1 where r1: "r1 = x1 @ v"
    and c: "x1 = [] \<or> v \<in> set (rests (lexer_at (x1 @ v) s))"
  proof
    assume "v = r1"
    then have "r1 = [] @ v" by simp
    then show ?thesis using that by blast
  next
    assume a: "v \<in> set (rests (lexer_at r1 s))"
    from rests_suffix [OF a] obtain p where "r1 = p @ v" by blast
    with a show ?thesis using that by blast
  qed
  from g have gv: "gettok_stream (x @ v) = Some (tp, x1 @ v)" unfolding r1 .
  from gettok_stream_local [OF gv ne assms]
  have gw: "gettok_stream (x @ w) = Some (tp, x1 @ w)" .
  from gv ne have tv: "tokens (lexer_at (x @ v) s)
    = (tp # fst (tokens (lexer_at (x1 @ v) s)), snd (tokens (lexer_at (x1 @ v) s)))"
    by (simp add: tokens_lexer_at [of "x @ v" s] split: prod.splits)
  from gw ne have tw: "tokens (lexer_at (x @ w) s)
    = (tp # fst (tokens (lexer_at (x1 @ w) s)), snd (tokens (lexer_at (x1 @ w) s)))"
    by (simp add: tokens_lexer_at [of "x @ w" s] split: prod.splits)
  from c show ?case
  proof
    assume "x1 = []"
    with tv tw have "tokens (lexer_at (x @ v) s)
            = ([tp] @ fst (tokens (lexer_at v s)), snd (tokens (lexer_at v s)))"
      and "tokens (lexer_at (x @ w) s)
            = ([tp] @ fst (tokens (lexer_at w s)), snd (tokens (lexer_at w s)))"
      by simp_all
    then show ?thesis by blast
  next
    assume a: "v \<in> set (rests (lexer_at (x1 @ v) s))"
    from gettok_stream_suffix [OF gv] ne obtain p where "x @ v = (p @ x1) @ v" "p \<noteq> []"
      by auto
    then have "x = p @ x1" "p \<noteq> []" by simp_all
    then have "length x1 < length x" by simp
    with "1.IH" a obtain ts where
      "tokens (lexer_at (x1 @ v) s)
         = (ts @ fst (tokens (lexer_at v s)), snd (tokens (lexer_at v s)))"
      "tokens (lexer_at (x1 @ w) s)
         = (ts @ fst (tokens (lexer_at w s)), snd (tokens (lexer_at w s)))"
      by blast
    with tv tw have "tokens (lexer_at (x @ v) s)
            = ((tp # ts) @ fst (tokens (lexer_at v s)), snd (tokens (lexer_at v s)))"
      and "tokens (lexer_at (x @ w) s)
            = ((tp # ts) @ fst (tokens (lexer_at w s)), snd (tokens (lexer_at w s)))"
      by simp_all
    then show ?thesis by blast
  qed
qed

lemma tokens_initial_state:
  "tokens (initial_state inp) = tokens (lexer_at (CHR '' '' # inp) (initial_state []))"
  using tokens_lexer_at_base [of "CHR '' '' # inp" "initial_state inp" "initial_state []"]
    initial_state_lexer_at [of inp]
  by simp

lemma rests_initial_state:
  "rests (initial_state inp) = rests (lexer_at (CHR '' '' # inp) (initial_state []))"
  using rests_view [OF getchar_value_lexer_at lexer_view_lexer_at,
      of "CHR '' '' # inp" "initial_state inp" "initial_state []"]
    initial_state_lexer_at [of inp]
  by simp

lemma tokens_filler:
  "is_filler f \<Longrightarrow> tokens (lexer_at (f @ v) s) = tokens (lexer_at v s)"
  by (rule tokens_gettok_stream_cong) (rule gettok_stream_filler)

lemma filler_replace:
  assumes f: "is_filler f" and g: "is_filler g" and n: "f = [] \<or> g \<noteq> []"
    and c: "is_filler u \<or> f @ v \<in> set (rests (initial_state (u @ f @ v)))"
  shows "tokens (initial_state (u @ g @ v)) = tokens (initial_state (u @ f @ v))"
proof -
  let ?s = "initial_state []"
  from c show ?thesis
  proof
    assume u: "is_filler u"
    then have "is_filler (CHR '' '' # u)" by (simp add: isspace_def)
    then have "tokens (lexer_at ((CHR '' '' # u) @ g @ v) ?s) = tokens (lexer_at (g @ v) ?s)"
      and "tokens (lexer_at ((CHR '' '' # u) @ f @ v) ?s) = tokens (lexer_at (f @ v) ?s)"
      by (rule tokens_filler)+
    with tokens_filler [OF f, of v ?s] tokens_filler [OF g, of v ?s] show ?thesis
      by (simp add: tokens_initial_state)
  next
    assume "f @ v \<in> set (rests (initial_state (u @ f @ v)))"
    then have r: "f @ v \<in> set (rests (lexer_at ((CHR '' '' # u) @ f @ v) ?s))"
      by (simp add: rests_initial_state)
    show ?thesis
    proof (cases "g = []")
      case True
      with n show ?thesis by simp
    next
      case False
      with is_filler_hd [OF g] have "g @ v = [] \<or> is_space (hd (g @ v)) \<or> hd (g @ v) = CHR ''#''"
        by simp
      from tokens_cut [OF this r] obtain ts where
        "tokens (lexer_at ((CHR '' '' # u) @ f @ v) ?s)
           = (ts @ fst (tokens (lexer_at (f @ v) ?s)), snd (tokens (lexer_at (f @ v) ?s)))"
        "tokens (lexer_at ((CHR '' '' # u) @ g @ v) ?s)
           = (ts @ fst (tokens (lexer_at (g @ v) ?s)), snd (tokens (lexer_at (g @ v) ?s)))"
        by blast
      with tokens_filler [OF f, of v ?s] tokens_filler [OF g, of v ?s] show ?thesis
        by (simp add: tokens_initial_state)
    qed
  qed
qed

text \<open>
  C5, as the code has it. Let a token end at a place of the input (or let nothing but
  filler stand before the place), and let filler \<open>f\<close>, possibly none, follow it. Putting
  any filler \<open>g\<close> in the place of \<open>f\<close> leaves the sequence of tokens and payloads as it
  is, provided \<open>g\<close> is not empty when \<open>f\<close> is not. So whitespace and line comments can be
  inserted between two tokens, and the filler between two tokens can be changed; it
  cannot always be removed altogether, since two tokens may then read as one.
\<close>

theorem filler_transparent:
  "is_filler f \<and> is_filler g \<and> (f = [] \<or> g \<noteq> []) \<and>
   (is_filler u \<or> f @ v \<in> set (rests (initial_state (u @ f @ v)))) \<longrightarrow>
   tokens (initial_state (u @ g @ v)) = tokens (initial_state (u @ f @ v))"
  using filler_replace [of f g u v] by blast

lemmas filler_eval = tokens_eval rests.simps remaining_def

theorem filler_transparent_witness:
  "is_filler [] \<and> is_filler [CHR '' '', CHR ''#'', CHR ''s'', CHR 0x0A] \<and>
   ''+b'' \<in> set (rests (initial_state ''a+b'')) \<and>
   tokens (initial_state (''a'' @ [CHR '' '', CHR ''#'', CHR ''s'', CHR 0x0A] @ ''+b''))
     = tokens (initial_state ''a+b'') \<and>
   tokens (initial_state ''a+b'')
     = ([(tok_identifier, Some ''a'', None), (43, None, None),
         (tok_identifier, Some ''b'', None), (tok_eof, None, None)], True)"
proof -
  let ?g = "[CHR '' '', CHR ''#'', CHR ''s'', CHR 0x0A]"
  have f: "is_filler []" and g: "is_filler ?g"
    by (simp_all add: isspace_def)
  have r: "[] @ ''+b'' \<in> set (rests (initial_state (''a'' @ [] @ ''+b'')))"
    by (simp add: filler_eval lexer_eval)
  have t: "tokens (initial_state ''a+b'')
     = ([(tok_identifier, Some ''a'', None), (43, None, None),
         (tok_identifier, Some ''b'', None), (tok_eof, None, None)], True)"
    by (simp add: filler_eval lexer_eval)
  from filler_transparent [of "[]" ?g "''a''" "''+b''"] f g r
  have "tokens (initial_state (''a'' @ ?g @ ''+b'')) = tokens (initial_state (''a'' @ [] @ ''+b''))"
    by blast
  with f g r t show ?thesis by simp
qed

text \<open>
  C5 as stated fails: the space of \<open>a b\<close> stands between two tokens, and without it the
  input is \<open>ab\<close>, a single identifier.
\<close>

theorem filler_removal_counterexample:
  "is_filler '' '' \<and> '' b'' \<in> set (rests (initial_state (''a'' @ '' '' @ ''b''))) \<and>
   tokens (initial_state (''a'' @ '' '' @ ''b''))
     = ([(tok_identifier, Some ''a'', None), (tok_identifier, Some ''b'', None),
         (tok_eof, None, None)], True) \<and>
   tokens (initial_state (''a'' @ ''b''))
     = ([(tok_identifier, Some ''ab'', None), (tok_eof, None, None)], True) \<and>
   tokens (initial_state (''a'' @ '' '' @ ''b'')) \<noteq> tokens (initial_state (''a'' @ ''b''))"
  by (simp add: filler_eval lexer_eval)

end
